theory Spec2Isabelle
  imports Main "HOL-Library.Multiset"
begin

section \<open>Data model (src/types)\<close>

text \<open>
  \<^verbatim>\<open>PreferenceValue = string | number | boolean | null | PreferenceObject | PreferenceArray\<close>.
  A mapping is kept as the list of its own enumerable properties in the order
  \<^verbatim>\<open>Object.entries\<close> yields them. \<open>PObject es\<close> is an ordinary object, whose prototype is
  \<^verbatim>\<open>Object.prototype\<close>: what an object literal and \<^verbatim>\<open>JSON.parse\<close> build. \<^verbatim>\<open>deepMerge\<close> can
  return an object whose prototype it has replaced: \<open>PDerived p es\<close> is the object with the
  own properties \<open>es\<close> and the prototype \<open>p\<close>, which is \<open>PNull\<close> (no prototype), an object
  or an array. The functions modelled here only copy and compare the shape of values, so
  the payload of a number is kept as an integer.
\<close>

datatype PreferenceValue =
    PString string
  | PNumber int
  | PBoolean bool
  | PNull
  | PObject "(string \<times> PreferenceValue) list"
  | PArray "PreferenceValue list"
  | PDerived PreferenceValue "(string \<times> PreferenceValue) list"

text \<open>
  \<^verbatim>\<open>PreferenceMetadata\<close>. The priority is a number (the enum \<^verbatim>\<open>PreferencePriority\<close> names five
  of its values), the timestamp a \<^verbatim>\<open>Date\<close>, read here as its time value in milliseconds.
\<close>

record PreferenceMetadata =
  key :: string
  pvalue :: PreferenceValue
  priority :: int
  source :: string
  timestamp :: int
  encrypted :: "bool option"
  validated :: "bool option"
  ttl :: "int option"

text \<open>
  \<^verbatim>\<open>ConflictResolution\<close> is a string enum; at run time any other string can reach the
  \<^verbatim>\<open>switch\<close>, which is what \<open>UNRECOGNIZED\<close> stands for.
\<close>

datatype ConflictResolution =
    HIGHEST_PRIORITY
  | LOWEST_PRIORITY
  | MERGE
  | OVERRIDE
  | ERROR
  | UNRECOGNIZED string

text \<open>One element of \<^verbatim>\<open>ValidationResult.errors\<close>, as \<^verbatim>\<open>PreferenceValidator.validate\<close> builds it.\<close>

record ValidationError =
  rule :: string
  message :: string
  rejected :: PreferenceValue

text \<open>
  What the modelled code throws. \<open>ConflictError\<close> and \<open>PreferenceNotFoundError\<close> are the
  classes of src/errors; \<open>UnknownStrategyError\<close> is the plain \<^verbatim>\<open>Error\<close> of the \<^verbatim>\<open>default\<close>
  branch of \<^verbatim>\<open>resolve\<close>; \<open>ValidationFailed\<close> is the plain \<^verbatim>\<open>Error\<close> that \<^verbatim>\<open>set\<close> throws, its
  message being the JSON text of the error list; \<open>TypeError\<close> is the run-time's own;
  \<open>Thrown\<close> is any exception raised by a collaborator (provider, validator rule,
  encryption service). \<open>NotMetadata\<close> marks the one place where the source returns, without
  throwing, an object that is no \<^verbatim>\<open>PreferenceMetadata\<close>.
\<close>

datatype error =
    ConflictError string "string list"
  | PreferenceNotFoundError string
  | UnknownStrategyError string
  | ValidationFailed "ValidationError list"
  | TypeError string
  | Thrown string
  | NotMetadata

section \<open>ConflictResolver (src/utils/conflict-resolver)\<close>

text \<open>
  \<^verbatim>\<open>Array.prototype.reduce\<close> without an initial value: the first element starts the
  accumulator, and an empty array raises a TypeError.
\<close>

definition reduce :: "('a \<Rightarrow> 'a \<Rightarrow> 'a) \<Rightarrow> 'a list \<Rightarrow> error + 'a" where
  "reduce f xs =
     (case xs of
        [] \<Rightarrow> Inl (TypeError ''Reduce of empty array with no initial value'')
      | x # rest \<Rightarrow> Inr (foldl f x rest))"

definition pickHighest :: "PreferenceMetadata \<Rightarrow> PreferenceMetadata \<Rightarrow> PreferenceMetadata" where
  "pickHighest highest current =
     (if priority current > priority highest then current
      else if priority current = priority highest \<and> timestamp current > timestamp highest
        then current
      else highest)"

definition resolveByHighestPriority :: "PreferenceMetadata list \<Rightarrow> error + PreferenceMetadata" where
  "resolveByHighestPriority conflicts = reduce pickHighest conflicts"

definition pickLowest :: "PreferenceMetadata \<Rightarrow> PreferenceMetadata \<Rightarrow> PreferenceMetadata" where
  "pickLowest lowest current =
     (if priority current < priority lowest then current
      else if priority current = priority lowest \<and> timestamp current < timestamp lowest
        then current
      else lowest)"

definition resolveByLowestPriority :: "PreferenceMetadata list \<Rightarrow> error + PreferenceMetadata" where
  "resolveByLowestPriority conflicts = reduce pickLowest conflicts"

definition pickLatest :: "PreferenceMetadata \<Rightarrow> PreferenceMetadata \<Rightarrow> PreferenceMetadata" where
  "pickLatest latest current =
     (if timestamp current > timestamp latest then current else latest)"

definition resolveByOverride :: "PreferenceMetadata list \<Rightarrow> error + PreferenceMetadata" where
  "resolveByOverride conflicts = reduce pickLatest conflicts"

subsection \<open>The MERGE strategy\<close>

text \<open>
  \<^verbatim>\<open>typeof v === 'object' && v !== null && !Array.isArray(v)\<close>
\<close>

fun isObject :: "PreferenceValue \<Rightarrow> bool" where
  "isObject (PObject es) = True"
| "isObject (PDerived p es) = True"
| "isObject _ = False"

text \<open>\<^verbatim>\<open>Object.entries(value)\<close>: the own enumerable properties of an object.\<close>

fun objectEntries :: "PreferenceValue \<Rightarrow> (string \<times> PreferenceValue) list" where
  "objectEntries (PObject es) = es"
| "objectEntries (PDerived p es) = es"
| "objectEntries _ = []"

text \<open>
  The order of the own keys of an object: the array indices first, in ascending numeric
  order, then the other strings in the order of their creation. An array index is the
  canonical decimal numeral of an integer from 0 to \<open>2\<^sup>3\<^sup>2 - 2\<close>. \<open>precedes k k'\<close> says that
  the key \<open>k\<close> is listed before the key \<open>k'\<close> whenever it is created; \<open>addKey\<close> creates a
  property, \<open>replaceValue\<close> overwrites one where it stands.
\<close>

definition digitValue :: "char \<Rightarrow> int option" where
  "digitValue c =
     map_of [(CHR ''0'', 0), (CHR ''1'', 1), (CHR ''2'', 2), (CHR ''3'', 3), (CHR ''4'', 4),
             (CHR ''5'', 5), (CHR ''6'', 6), (CHR ''7'', 7), (CHR ''8'', 8), (CHR ''9'', 9)] c"

fun decimal :: "int \<Rightarrow> string \<Rightarrow> int option" where
  "decimal n [] = Some n"
| "decimal n (c # cs) =
     (case digitValue c of None \<Rightarrow> None | Some d \<Rightarrow> decimal (10 * n + d) cs)"

definition arrayIndex :: "string \<Rightarrow> int option" where
  "arrayIndex k =
     (if k = [] \<or> (hd k = CHR ''0'' \<and> tl k \<noteq> []) then None
      else case decimal 0 k of
          None \<Rightarrow> None
        | Some n \<Rightarrow> if n < 4294967295 then Some n else None)"

definition precedes :: "string \<Rightarrow> string \<Rightarrow> bool" where
  "precedes k k' =
     (case arrayIndex k of
        None \<Rightarrow> False
      | Some i \<Rightarrow> (case arrayIndex k' of None \<Rightarrow> True | Some j \<Rightarrow> i < j))"

fun addKey ::
  "(string \<times> PreferenceValue) list \<Rightarrow> string \<Rightarrow> PreferenceValue \<Rightarrow> (string \<times> PreferenceValue) list"
where
  "addKey [] k v = [(k, v)]"
| "addKey ((k', v') # ps) k v =
     (if precedes k k' then (k, v) # (k', v') # ps else (k', v') # addKey ps k v)"

fun replaceValue ::
  "(string \<times> PreferenceValue) list \<Rightarrow> string \<Rightarrow> PreferenceValue \<Rightarrow> (string \<times> PreferenceValue) list"
where
  "replaceValue [] k v = []"
| "replaceValue ((k', v') # ps) k v =
     (if k' = k then (k, v) # ps else (k', v') # replaceValue ps k v)"

definition writeOwn ::
  "(string \<times> PreferenceValue) list \<Rightarrow> string \<Rightarrow> PreferenceValue \<Rightarrow> (string \<times> PreferenceValue) list"
where
  "writeOwn es k v = (if k \<in> set (map fst es) then replaceValue es k v else addKey es k v)"

text \<open>
  Looking a key up along the prototype chain, as \<^verbatim>\<open>result[key]\<close> and \<^verbatim>\<open>result[key] = val\<close>
  both do. An object answers with its own property; failing that, its prototype is asked.
  An array has its elements and \<^verbatim>\<open>length\<close> as own properties, and the methods of
  \<^verbatim>\<open>Array.prototype\<close> before \<^verbatim>\<open>Object.prototype\<close>. \<^verbatim>\<open>Object.prototype\<close> holds the accessor
  \<^verbatim>\<open>__proto__\<close> and methods. All these methods are functions, for which \<^verbatim>\<open>typeof\<close> is not
  \<^verbatim>\<open>'object'\<close>, and they are writable, so that an assignment to their key creates an own
  property of the object assigned to: for the test and for the assignment of \<^verbatim>\<open>deepMerge\<close>
  they count as absent, and \<open>NoObject\<close> stands for both. The values themselves are data
  as \<^verbatim>\<open>JSON.parse\<close> builds them, all their properties writable.
\<close>

datatype Property = Data PreferenceValue | ProtoAccessor | NoObject

definition element :: "PreferenceValue list \<Rightarrow> string \<Rightarrow> PreferenceValue option" where
  "element xs k =
     (if k = ''length'' then Some (PNumber (int (length xs)))
      else case arrayIndex k of
          None \<Rightarrow> None
        | Some i \<Rightarrow> if 0 \<le> i \<and> i < int (length xs) then Some (xs ! nat i) else None)"

definition builtin :: "string \<Rightarrow> Property" where
  "builtin k = (if k = ''__proto__'' then ProtoAccessor else NoObject)"

fun findProperty :: "PreferenceValue \<Rightarrow> string \<Rightarrow> Property" where
  "findProperty (PObject es) k = (case map_of es k of Some v \<Rightarrow> Data v | None \<Rightarrow> builtin k)"
| "findProperty (PDerived p es) k =
     (case map_of es k of Some v \<Rightarrow> Data v | None \<Rightarrow> findProperty p k)"
| "findProperty (PArray xs) k = (case element xs k of Some v \<Rightarrow> Data v | None \<Rightarrow> builtin k)"
| "findProperty _ k = NoObject"

text \<open>
  The getter of \<^verbatim>\<open>__proto__\<close> returns the prototype of the object that was read. For an
  ordinary object that is \<^verbatim>\<open>Object.prototype\<close> itself, which \<^verbatim>\<open>deepMerge\<close> then receives as
  its first value; \<^verbatim>\<open>deepMerge\<close> reads its values through \<^verbatim>\<open>typeof\<close>, \<^verbatim>\<open>Array.isArray\<close> and
  \<^verbatim>\<open>Object.entries\<close> only, and \<^verbatim>\<open>Object.prototype\<close> has no enumerable property, so it is
  passed on as the empty mapping.
\<close>

fun getPrototypeOf :: "PreferenceValue \<Rightarrow> PreferenceValue" where
  "getPrototypeOf (PDerived p es) = p"
| "getPrototypeOf _ = PObject []"

text \<open>
  \<^verbatim>\<open>result[key]\<close> when
  \<^verbatim>\<open>typeof result[key] === 'object' && result[key] !== null && !Array.isArray(result[key])\<close>.
\<close>

definition objectAt :: "PreferenceValue \<Rightarrow> string \<Rightarrow> PreferenceValue option" where
  "objectAt result k =
     (case findProperty result k of
        Data v \<Rightarrow> if isObject v then Some v else None
      | ProtoAccessor \<Rightarrow>
          if isObject (getPrototypeOf result) then Some (getPrototypeOf result) else None
      | NoObject \<Rightarrow> None)"

definition isObjectAt :: "PreferenceValue \<Rightarrow> string \<Rightarrow> bool" where
  "isObjectAt result k \<longleftrightarrow> objectAt result k \<noteq> None"

text \<open>
  \<^verbatim>\<open>result[key] = val\<close>. When the lookup ends at the accessor \<^verbatim>\<open>__proto__\<close> its setter is
  called: it makes \<^verbatim>\<open>val\<close> the prototype of \<^verbatim>\<open>result\<close> when \<^verbatim>\<open>val\<close> is an object, an array or
  \<^verbatim>\<open>null\<close>, and does nothing otherwise; no own property is created. In every other case
  the own property is overwritten, or created when \<^verbatim>\<open>result\<close> has none of that name.
\<close>

fun withEntries :: "PreferenceValue \<Rightarrow> (string \<times> PreferenceValue) list \<Rightarrow> PreferenceValue" where
  "withEntries (PDerived p old) es = PDerived p es"
| "withEntries result es = PObject es"

fun setPrototypeOf :: "PreferenceValue \<Rightarrow> PreferenceValue \<Rightarrow> PreferenceValue" where
  "setPrototypeOf result (PObject es) = PDerived (PObject es) (objectEntries result)"
| "setPrototypeOf result (PDerived p es) = PDerived (PDerived p es) (objectEntries result)"
| "setPrototypeOf result (PArray xs) = PDerived (PArray xs) (objectEntries result)"
| "setPrototypeOf result PNull = PDerived PNull (objectEntries result)"
| "setPrototypeOf result v = result"

definition assign :: "PreferenceValue \<Rightarrow> string \<Rightarrow> PreferenceValue \<Rightarrow> PreferenceValue" where
  "assign result k v =
     (if findProperty result k = ProtoAccessor then setPrototypeOf result v
      else withEntries result (writeOwn (objectEntries result) k v))"

text \<open>
  \<^verbatim>\<open>deepMerge\<close>, with its two loops as recursive functions: \<open>mergeValues\<close> is
  \<^verbatim>\<open>for (const value of values)\<close> and \<open>mergeEntries\<close> is
  \<^verbatim>\<open>for (const [key, val] of Object.entries(value))\<close>, both threading \<^verbatim>\<open>result\<close>, which
  starts as \<^verbatim>\<open>{}\<close>. \<^verbatim>\<open>values[values.length - 1]\<close> is only read when some value is not a
  mapping, so the array is not empty there.
\<close>

function deepMerge :: "PreferenceValue list \<Rightarrow> PreferenceValue"
  and mergeValues :: "PreferenceValue \<Rightarrow> PreferenceValue list \<Rightarrow> PreferenceValue"
  and mergeEntries :: "PreferenceValue \<Rightarrow> (string \<times> PreferenceValue) list \<Rightarrow> PreferenceValue"
where
  "deepMerge values =
     (if \<not> list_all isObject values then last values
      else mergeValues (PObject []) values)"
| "mergeValues result [] = result"
| "mergeValues result (v # rest) =
     (if isObject v then mergeValues (mergeEntries result (objectEntries v)) rest
      else mergeValues result rest)"
| "mergeEntries result [] = result"
| "mergeEntries result ((k, val) # es) =
     (if isObject val \<and> isObjectAt result k
      then mergeEntries (assign result k (deepMerge [the (objectAt result k), val])) es
      else mergeEntries (assign result k val) es)"
  by pat_completeness auto

text \<open>
  The recursive call merges into a value that was itself computed by the function, so
  termination needs a bound on what the loops return: the result is nested no deeper than
  the arguments are.
\<close>

fun maxList :: "nat list \<Rightarrow> nat" where
  "maxList [] = 0"
| "maxList (n # ns) = max n (maxList ns)"

fun depth :: "PreferenceValue \<Rightarrow> nat" where
  "depth (PObject es) = maxList (map (\<lambda>e. Suc (depth (snd e))) es)"
| "depth (PArray xs) = maxList (map (\<lambda>x. Suc (depth x)) xs)"
| "depth (PDerived p es) = max (Suc (depth p)) (maxList (map (\<lambda>e. Suc (depth (snd e))) es))"
| "depth _ = 0"

abbreviation edepth :: "(string \<times> PreferenceValue) list \<Rightarrow> nat" where
  "edepth es \<equiv> maxList (map (\<lambda>e. Suc (depth (snd e))) es)"

lemma maxList_ge: "n \<in> set ns \<Longrightarrow> n \<le> maxList ns"
  by (induction ns) auto

lemma edepth_entries: "edepth (objectEntries v) \<le> depth v"
  by (cases v) auto

lemma edepth_lookup: "map_of es k = Some v \<Longrightarrow> Suc (depth v) \<le> edepth es"
  by (induction es) (auto split: if_splits)

lemma depth_element:
  assumes "element xs k = Some v" "isObject v"
  shows "Suc (depth v) \<le> depth (PArray xs)"
proof -
  from assms have "\<exists>i. i < length xs \<and> v = xs ! i"
  proof (cases "arrayIndex k")
    case None
    with assms show ?thesis by (auto simp: element_def split: if_splits)
  next
    case (Some j)
    with assms have "nat j < length xs \<and> v = xs ! nat j"
      by (auto simp: element_def split: if_splits)
    then show ?thesis by blast
  qed
  then obtain i where "i < length xs" "v = xs ! i" by blast
  then have "Suc (depth v) \<in> set (map (\<lambda>x. Suc (depth x)) xs)" by auto
  from maxList_ge[OF this] show ?thesis by simp
qed

lemma depth_findProperty:
  "findProperty h k = Data v \<Longrightarrow> isObject v \<Longrightarrow> Suc (depth v) \<le> depth h"
proof (induction h k rule: findProperty.induct)
  case (1 es k)
  then show ?case by (auto simp: builtin_def dest: edepth_lookup split: option.splits if_splits)
next
  case (2 p es k)
  then show ?case by (force dest: edepth_lookup split: option.splits)
next
  case (3 xs k)
  then show ?case using depth_element[of xs k v] by (auto simp: builtin_def split: option.splits if_splits)
qed simp_all

lemma depth_objectAt: "objectAt result k = Some r \<Longrightarrow> depth r < max (depth result) (Suc n)"
proof (cases "findProperty result k")
  case (Data v)
  assume "objectAt result k = Some r"
  with Data have "v = r" "isObject r" by (auto simp: objectAt_def split: if_splits)
  with depth_findProperty[of result k r] Data show ?thesis by auto
next
  case ProtoAccessor
  assume "objectAt result k = Some r"
  with ProtoAccessor have r: "r = getPrototypeOf result" by (auto simp: objectAt_def split: if_splits)
  show ?thesis by (cases result) (auto simp: r)
next
  case NoObject
  assume "objectAt result k = Some r"
  with NoObject show ?thesis by (simp add: objectAt_def)
qed

lemma edepth_replaceValue: "edepth (replaceValue es k v) \<le> max (edepth es) (Suc (depth v))"
  by (induction es k v rule: replaceValue.induct) auto

lemma edepth_addKey: "edepth (addKey es k v) \<le> max (edepth es) (Suc (depth v))"
  by (induction es k v rule: addKey.induct) auto

lemma edepth_writeOwn: "edepth (writeOwn es k v) \<le> max (edepth es) (Suc (depth v))"
  using edepth_replaceValue[of es k v] edepth_addKey[of es k v] by (simp add: writeOwn_def)

lemma depth_withEntries: "depth (withEntries result es) \<le> max (depth result) (edepth es)"
  by (cases result) auto

lemma depth_setPrototypeOf: "depth (setPrototypeOf result v) \<le> max (depth result) (Suc (depth v))"
  using edepth_entries[of result] by (cases v) auto

lemma depth_assign: "depth (assign result k v) \<le> max (depth result) (Suc (depth v))"
proof (cases "findProperty result k = ProtoAccessor")
  case True
  then show ?thesis using depth_setPrototypeOf[of result v] by (simp add: assign_def)
next
  case False
  have "depth (withEntries result (writeOwn (objectEntries result) k v))
      \<le> max (depth result) (edepth (writeOwn (objectEntries result) k v))"
    by (rule depth_withEntries)
  also have "\<dots> \<le> max (depth result) (max (edepth (objectEntries result)) (Suc (depth v)))"
    using edepth_writeOwn[of "objectEntries result" k v] by auto
  also have "\<dots> \<le> max (depth result) (Suc (depth v))"
    using edepth_entries[of result] by auto
  finally show ?thesis using False by (simp add: assign_def)
qed

lemma depth_last: "vs \<noteq> [] \<Longrightarrow> depth (last vs) \<le> maxList (map depth vs)"
  by (induction vs) auto

lemma merge_depth_dom:
  "deepMerge_mergeValues_mergeEntries_dom (Inl values) \<Longrightarrow>
     depth (deepMerge values) \<le> maxList (map depth values)"
  "deepMerge_mergeValues_mergeEntries_dom (Inr (Inl (result, vs))) \<Longrightarrow>
     depth (mergeValues result vs) \<le> max (depth result) (maxList (map depth vs))"
  "deepMerge_mergeValues_mergeEntries_dom (Inr (Inr (result, es))) \<Longrightarrow>
     depth (mergeEntries result es) \<le> max (depth result) (edepth es)"
proof (induction "values" and result vs and result es
    rule: deepMerge_mergeValues_mergeEntries.pinduct)
  case (1 "values")
  show ?case
  proof (cases "list_all isObject values")
    case True
    with 1 show ?thesis by (simp add: deepMerge.psimps)
  next
    case False
    then have "values \<noteq> []" by auto
    from depth_last[OF this] False 1(1) show ?thesis by (simp add: deepMerge.psimps)
  qed
next
  case (2 result)
  then show ?case by (simp add: mergeValues.psimps)
next
  case (3 result v rest)
  show ?case
  proof (cases "isObject v")
    case True
    from 3(2)[OF True] edepth_entries[of v]
    have "depth (mergeEntries result (objectEntries v)) \<le> max (depth result) (depth v)" by simp
    with 3(3)[OF True] True 3(1) show ?thesis by (simp add: mergeValues.psimps)
  next
    case False
    with 3(4)[OF False] 3(1) show ?thesis by (simp add: mergeValues.psimps)
  qed
next
  case (4 result)
  then show ?case by (simp add: mergeEntries.psimps)
next
  case (5 result k val es)
  show ?case
  proof (cases "isObject val \<and> isObjectAt result k")
    case True
    then obtain r where r: "objectAt result k = Some r" by (auto simp: isObjectAt_def)
    from 5(2)[OF True] r have "depth (deepMerge [r, val]) \<le> max (depth r) (depth val)" by simp
    with depth_objectAt[OF r, of "depth val"]
    have "Suc (depth (deepMerge [r, val])) \<le> max (depth result) (Suc (depth val))" by simp
    with depth_assign[of result k "deepMerge [r, val]"]
    have "depth (assign result k (deepMerge [r, val])) \<le> max (depth result) (Suc (depth val))"
      by simp
    with 5(3)[OF True] r True 5(1) show ?thesis by (simp add: mergeEntries.psimps)
  next
    case False
    from 5(1) False
    have "mergeEntries result ((k, val) # es) = mergeEntries (assign result k val) es"
      by (auto simp: mergeEntries.psimps)
    with 5(4)[OF False] depth_assign[of result k val] show ?thesis by simp
  qed
qed

termination deepMerge
proof (relation "measures
        [\<lambda>x. case x of
            Inl values \<Rightarrow> maxList (map depth values)
          | Inr (Inl (result, vs)) \<Rightarrow> max (depth result) (maxList (map depth vs))
          | Inr (Inr (result, es)) \<Rightarrow> max (depth result) (edepth es),
         \<lambda>x. case x of
            Inl values \<Rightarrow> 2
          | Inr (Inl (result, vs)) \<Rightarrow> 1
          | Inr (Inr (result, es)) \<Rightarrow> 0,
         \<lambda>x. case x of
            Inl values \<Rightarrow> 0
          | Inr (Inl (result, vs)) \<Rightarrow> length vs
          | Inr (Inr (result, es)) \<Rightarrow> length es]", goal_cases)
  case 1
  show ?case by simp
next
  case (2 "values")
  then show ?case by simp
next
  case (3 result v rest)
  with edepth_entries[of v] show ?case by (simp; arith)
next
  case (4 result v rest)
  from merge_depth_dom(3)[OF 4(2)] edepth_entries[of v] show ?case by (simp; arith)
next
  case (5 result v rest)
  then show ?case by (simp; arith)
next
  case (6 result k val es)
  then obtain r where r: "objectAt result k = Some r" by (auto simp: isObjectAt_def)
  from depth_objectAt[OF r, of "depth val"] r show ?case by (simp; arith)
next
  case (7 result k val es)
  then obtain r where r: "objectAt result k = Some r" by (auto simp: isObjectAt_def)
  from merge_depth_dom(1)[OF 7(2)] r
  have "depth (deepMerge [r, val]) \<le> max (depth r) (depth val)" by simp
  with depth_objectAt[OF r, of "depth val"]
  have "Suc (depth (deepMerge [r, val])) \<le> max (depth result) (Suc (depth val))" by simp
  with depth_assign[of result k "deepMerge [r, val]"] r show ?case by (simp; arith)
next
  case (8 result k val es)
  from depth_assign[of result k val] show ?case by (simp; arith)
qed

declare deepMerge.simps [simp del]

text \<open>
  \<^verbatim>\<open>[...conflicts].sort(compare)\<close>: the sort is stable, and for a consistent comparator
  its result is the stable sorted arrangement, which insertion from the left computes.
\<close>

definition compareMerge :: "PreferenceMetadata \<Rightarrow> PreferenceMetadata \<Rightarrow> int" where
  "compareMerge a b =
     (if priority a \<noteq> priority b then priority a - priority b
      else timestamp a - timestamp b)"

fun insertBy :: "('a \<Rightarrow> 'a \<Rightarrow> int) \<Rightarrow> 'a \<Rightarrow> 'a list \<Rightarrow> 'a list" where
  "insertBy cmp x [] = [x]"
| "insertBy cmp x (y # ys) = (if cmp x y < 0 then x # y # ys else y # insertBy cmp x ys)"

definition sortBy :: "('a \<Rightarrow> 'a \<Rightarrow> int) \<Rightarrow> 'a list \<Rightarrow> 'a list" where
  "sortBy cmp xs = foldl (\<lambda>sorted x. insertBy cmp x sorted) [] xs"

text \<open>\<^verbatim>\<open>Array.prototype.join\<close> on an array of strings.\<close>

fun join :: "string \<Rightarrow> string list \<Rightarrow> string" where
  "join sep [] = []"
| "join sep [x] = x"
| "join sep (x # y # ys) = x @ sep @ join sep (y # ys)"

text \<open>
  \<^verbatim>\<open>resolveByMerge\<close>. On an empty array \<^verbatim>\<open>sorted[sorted.length - 1]\<close> is \<^verbatim>\<open>undefined\<close>, whose
  spread adds nothing: the source then returns an object with \<^verbatim>\<open>value\<close> and \<^verbatim>\<open>source\<close> only.
\<close>

definition resolveByMerge :: "PreferenceMetadata list \<Rightarrow> error + PreferenceMetadata" where
  "resolveByMerge conflicts =
     (let sorted = sortBy compareMerge conflicts;
          mergedValue = deepMerge (map pvalue sorted)
      in if sorted = [] then Inl NotMetadata
         else Inr ((last sorted)
                \<lparr>pvalue := mergedValue,
                 source := ''merged['' @ join '','' (map source sorted) @ '']''\<rparr>))"

subsection \<open>Dispatch\<close>

definition resolve :: "PreferenceMetadata list \<Rightarrow> ConflictResolution \<Rightarrow> error + PreferenceMetadata" where
  "resolve conflicts strategy =
     (if length conflicts = 0 then Inl (ConflictError ''unknown'' (map source conflicts))
      else if length conflicts = 1 then Inr (conflicts ! 0)
      else case strategy of
          HIGHEST_PRIORITY \<Rightarrow> resolveByHighestPriority conflicts
        | LOWEST_PRIORITY \<Rightarrow> resolveByLowestPriority conflicts
        | MERGE \<Rightarrow> resolveByMerge conflicts
        | OVERRIDE \<Rightarrow> resolveByOverride conflicts
        | ERROR \<Rightarrow> Inl (ConflictError (key (conflicts ! 0)) (map source conflicts))
        | UNRECOGNIZED s \<Rightarrow> Inl (UnknownStrategyError s))"


section \<open>Properties of the ConflictResolver\<close>

subsection \<open>The two priority folds\<close>

text \<open>
  \<open>outranks r c\<close>: \<open>r\<close> is at least as good as \<open>c\<close> for HIGHEST_PRIORITY (higher priority,
  or the same priority and not older). \<open>undercuts r c\<close> is its mirror image for
  LOWEST_PRIORITY (lower priority, or the same priority and not newer).
\<close>

definition outranks :: "PreferenceMetadata \<Rightarrow> PreferenceMetadata \<Rightarrow> bool" where
  "outranks r c \<longleftrightarrow>
     priority c < priority r \<or> (priority c = priority r \<and> timestamp c \<le> timestamp r)"

definition undercuts :: "PreferenceMetadata \<Rightarrow> PreferenceMetadata \<Rightarrow> bool" where
  "undercuts r c \<longleftrightarrow>
     priority r < priority c \<or> (priority c = priority r \<and> timestamp r \<le> timestamp c)"

lemma outranks_trans: "outranks a b \<Longrightarrow> outranks b c \<Longrightarrow> outranks a c"
  unfolding outranks_def by linarith

lemma undercuts_trans: "undercuts a b \<Longrightarrow> undercuts b c \<Longrightarrow> undercuts a c"
  unfolding undercuts_def by linarith

lemma pickHighest_in: "pickHighest x y = x \<or> pickHighest x y = y"
  by (simp add: pickHighest_def)

lemma pickLowest_in: "pickLowest x y = x \<or> pickLowest x y = y"
  by (simp add: pickLowest_def)

lemma pickHighest_outranks: "outranks (pickHighest x y) x" "outranks (pickHighest x y) y"
  unfolding outranks_def pickHighest_def by (simp_all, linarith)

lemma pickLowest_undercuts: "undercuts (pickLowest x y) x" "undercuts (pickLowest x y) y"
  unfolding undercuts_def pickLowest_def by (simp_all, linarith)

lemma foldl_pickHighest_in: "foldl pickHighest x xs \<in> set (x # xs)"
proof (induction xs arbitrary: x)
  case Nil
  show ?case by simp
next
  case (Cons y ys)
  from Cons[of "pickHighest x y"] pickHighest_in[of x y] show ?case by auto
qed

lemma foldl_pickLowest_in: "foldl pickLowest x xs \<in> set (x # xs)"
proof (induction xs arbitrary: x)
  case Nil
  show ?case by simp
next
  case (Cons y ys)
  from Cons[of "pickLowest x y"] pickLowest_in[of x y] show ?case by auto
qed

lemma foldl_pickHighest_outranks:
  "c \<in> set (x # xs) \<Longrightarrow> outranks (foldl pickHighest x xs) c"
proof (induction xs arbitrary: x c)
  case Nil
  then show ?case by (simp add: outranks_def)
next
  case (Cons y ys)
  have acc: "outranks (foldl pickHighest (pickHighest x y) ys) (pickHighest x y)"
    by (rule Cons.IH) simp
  from Cons.prems consider "c = x" | "c = y" | "c \<in> set ys" by auto
  then show ?case
  proof cases
    case 1
    with outranks_trans[OF acc pickHighest_outranks(1)] show ?thesis by simp
  next
    case 2
    with outranks_trans[OF acc pickHighest_outranks(2)] show ?thesis by simp
  next
    case 3
    then have "outranks (foldl pickHighest (pickHighest x y) ys) c"
      by (intro Cons.IH) simp
    then show ?thesis by simp
  qed
qed

lemma foldl_pickLowest_undercuts:
  "c \<in> set (x # xs) \<Longrightarrow> undercuts (foldl pickLowest x xs) c"
proof (induction xs arbitrary: x c)
  case Nil
  then show ?case by (simp add: undercuts_def)
next
  case (Cons y ys)
  have acc: "undercuts (foldl pickLowest (pickLowest x y) ys) (pickLowest x y)"
    by (rule Cons.IH) simp
  from Cons.prems consider "c = x" | "c = y" | "c \<in> set ys" by auto
  then show ?case
  proof cases
    case 1
    with undercuts_trans[OF acc pickLowest_undercuts(1)] show ?thesis by simp
  next
    case 2
    with undercuts_trans[OF acc pickLowest_undercuts(2)] show ?thesis by simp
  next
    case 3
    then have "undercuts (foldl pickLowest (pickLowest x y) ys) c"
      by (intro Cons.IH) simp
    then show ?thesis by simp
  qed
qed

lemma resolve_highest:
  "resolve (x # y # ys) HIGHEST_PRIORITY = Inr (foldl pickHighest x (y # ys))"
  by (simp add: resolve_def resolveByHighestPriority_def reduce_def)

lemma resolve_lowest:
  "resolve (x # y # ys) LOWEST_PRIORITY = Inr (foldl pickLowest x (y # ys))"
  by (simp add: resolve_def resolveByLowestPriority_def reduce_def)

lemma two_or_more: "2 \<le> length xs \<Longrightarrow> \<exists>x y ys. xs = x # y # ys"
  by (cases xs; cases "tl xs") auto

text \<open>
  C1. On two or more records, HIGHEST_PRIORITY returns one of the records whose priority no
  record exceeds and, among the records of that priority, whose timestamp none exceeds
  (newest wins a tie); LOWEST_PRIORITY returns one of the records whose priority is the
  least and, among the records of that priority, whose timestamp is the least (oldest wins
  a tie).
\<close>

theorem resolve_priority_folds:
  assumes "2 \<le> length conflicts"
  shows "(\<exists>r. resolve conflicts HIGHEST_PRIORITY = Inr r \<and> r \<in> set conflicts \<and>
            (\<forall>c \<in> set conflicts. priority c \<le> priority r \<and>
               (priority c = priority r \<longrightarrow> timestamp c \<le> timestamp r))) \<and>
         (\<exists>r. resolve conflicts LOWEST_PRIORITY = Inr r \<and> r \<in> set conflicts \<and>
            (\<forall>c \<in> set conflicts. priority r \<le> priority c \<and>
               (priority c = priority r \<longrightarrow> timestamp r \<le> timestamp c)))"
proof -
  from two_or_more[OF assms] obtain x y ys where c: "conflicts = x # y # ys" by blast
  let ?hi = "foldl pickHighest x (y # ys)"
  let ?lo = "foldl pickLowest x (y # ys)"
  have hi: "\<forall>c \<in> set conflicts. priority c \<le> priority ?hi \<and>
               (priority c = priority ?hi \<longrightarrow> timestamp c \<le> timestamp ?hi)"
    using foldl_pickHighest_outranks[of _ x "y # ys"] unfolding c outranks_def by fastforce
  have lo: "\<forall>c \<in> set conflicts. priority ?lo \<le> priority c \<and>
               (priority c = priority ?lo \<longrightarrow> timestamp ?lo \<le> timestamp c)"
    using foldl_pickLowest_undercuts[of _ x "y # ys"] unfolding c undercuts_def by fastforce
  have "resolve conflicts HIGHEST_PRIORITY = Inr ?hi" "?hi \<in> set conflicts"
    using foldl_pickHighest_in[of x "y # ys"] unfolding c resolve_highest by simp_all
  moreover have "resolve conflicts LOWEST_PRIORITY = Inr ?lo" "?lo \<in> set conflicts"
    using foldl_pickLowest_in[of x "y # ys"] unfolding c resolve_lowest by simp_all
  ultimately show ?thesis using hi lo by blast
qed

text \<open>
  The mirrored tie-break on two records of priority 50 with timestamps 1 and 2: the
  theorem leaves the newer one as the only possible HIGHEST_PRIORITY result and the older
  one as the only possible LOWEST_PRIORITY result.
\<close>

theorem resolve_priority_folds_witness:
  "2 \<le> length
      [\<lparr>key = ''theme'', pvalue = PString ''light'', priority = 50, source = ''file'',
        timestamp = 1, encrypted = None, validated = None, ttl = None\<rparr>,
       \<lparr>key = ''theme'', pvalue = PString ''dark'', priority = 50, source = ''memory'',
        timestamp = 2, encrypted = None, validated = None, ttl = None\<rparr>] \<and>
   resolve
      [\<lparr>key = ''theme'', pvalue = PString ''light'', priority = 50, source = ''file'',
        timestamp = 1, encrypted = None, validated = None, ttl = None\<rparr>,
       \<lparr>key = ''theme'', pvalue = PString ''dark'', priority = 50, source = ''memory'',
        timestamp = 2, encrypted = None, validated = None, ttl = None\<rparr>] HIGHEST_PRIORITY =
     Inr \<lparr>key = ''theme'', pvalue = PString ''dark'', priority = 50, source = ''memory'',
        timestamp = 2, encrypted = None, validated = None, ttl = None\<rparr> \<and>
   resolve
      [\<lparr>key = ''theme'', pvalue = PString ''light'', priority = 50, source = ''file'',
        timestamp = 1, encrypted = None, validated = None, ttl = None\<rparr>,
       \<lparr>key = ''theme'', pvalue = PString ''dark'', priority = 50, source = ''memory'',
        timestamp = 2, encrypted = None, validated = None, ttl = None\<rparr>] LOWEST_PRIORITY =
     Inr \<lparr>key = ''theme'', pvalue = PString ''light'', priority = 50, source = ''file'',
        timestamp = 1, encrypted = None, validated = None, ttl = None\<rparr>"
  using resolve_priority_folds
    [of "[\<lparr>key = ''theme'', pvalue = PString ''light'', priority = 50, source = ''file'',
        timestamp = 1, encrypted = None, validated = None, ttl = None\<rparr>,
       \<lparr>key = ''theme'', pvalue = PString ''dark'', priority = 50, source = ''memory'',
        timestamp = 2, encrypted = None, validated = None, ttl = None\<rparr>]"]
  by auto

subsection \<open>One record\<close>

text \<open>
  C6. A collection of one record is returned as it is, whatever the strategy: ERROR and
  strings that name no strategy included. The result is never an error.
\<close>

theorem resolve_single: "resolve [c] strategy = Inr c"
  by (simp add: resolve_def)


subsection \<open>The MERGE strategy: sorting\<close>

definition sameRank :: "PreferenceMetadata \<Rightarrow> PreferenceMetadata \<Rightarrow> bool" where
  "sameRank a b \<longleftrightarrow> priority a = priority b \<and> timestamp a = timestamp b"

lemma mset_insertBy: "mset (insertBy cmp x xs) = add_mset x (mset xs)"
  by (induction xs) auto

lemma mset_sortBy_acc: "mset (foldl (\<lambda>sorted x. insertBy cmp x sorted) acc xs) = mset acc + mset xs"
  by (induction xs arbitrary: acc) (auto simp: mset_insertBy)

lemma mset_sortBy: "mset (sortBy cmp xs) = mset xs"
  by (simp add: sortBy_def mset_sortBy_acc)

lemma set_insertBy: "set (insertBy cmp x xs) = insert x (set xs)"
  by (induction xs) auto

lemma compareMerge_le: "compareMerge a b \<le> 0 \<longleftrightarrow> outranks b a"
  by (auto simp: compareMerge_def outranks_def)

lemma compareMerge_lt: "compareMerge a b < 0 \<Longrightarrow> outranks b a"
  by (auto simp: compareMerge_def outranks_def split: if_splits)

lemma compareMerge_ge: "\<not> compareMerge a b < 0 \<Longrightarrow> outranks a b"
  by (auto simp: compareMerge_def outranks_def split: if_splits)

lemma sorted_insertBy:
  "sorted_wrt (\<lambda>a b. outranks b a) xs \<Longrightarrow> sorted_wrt (\<lambda>a b. outranks b a) (insertBy compareMerge x xs)"
proof (induction xs)
  case Nil
  show ?case by simp
next
  case (Cons y ys)
  show ?case
  proof (cases "compareMerge x y < 0")
    case True
    from True compareMerge_lt[OF True] Cons.prems show ?thesis
      by (auto intro: outranks_trans)
  next
    case False
    from Cons.prems have ys: "sorted_wrt (\<lambda>a b. outranks b a) ys"
      and y: "\<forall>z \<in> set ys. outranks z y" by auto
    from compareMerge_ge[OF False] y have "\<forall>z \<in> set (insertBy compareMerge x ys). outranks z y"
      by (simp add: set_insertBy)
    with Cons.IH[OF ys] False show ?thesis by simp
  qed
qed

lemma sorted_sortBy_acc:
  "sorted_wrt (\<lambda>a b. outranks b a) acc \<Longrightarrow>
   sorted_wrt (\<lambda>a b. outranks b a) (foldl (\<lambda>sorted x. insertBy compareMerge x sorted) acc xs)"
  by (induction xs arbitrary: acc) (auto simp: sorted_insertBy)

lemma sorted_sortBy: "sorted_wrt (\<lambda>a b. outranks b a) (sortBy compareMerge xs)"
  by (simp add: sortBy_def sorted_sortBy_acc)


lemma filter_insertBy_other:
  "\<not> sameRank z x \<Longrightarrow> filter (sameRank z) (insertBy compareMerge x xs) = filter (sameRank z) xs"
  by (induction xs) auto

lemma filter_insertBy_same:
  "sorted_wrt (\<lambda>a b. outranks b a) xs \<Longrightarrow> sameRank z x \<Longrightarrow>
   filter (sameRank z) (insertBy compareMerge x xs) = filter (sameRank z) xs @ [x]"
proof (induction xs)
  case Nil
  then show ?case by simp
next
  case (Cons y ys)
  show ?case
  proof (cases "compareMerge x y < 0")
    case True
    have "\<not> sameRank z c" if "c \<in> set (y # ys)" for c
    proof -
      from that Cons.prems(1) have "outranks c y" by (auto simp: outranks_def)
      with True Cons.prems(2) show ?thesis
        by (auto simp: sameRank_def outranks_def compareMerge_def split: if_splits)
    qed
    then have "filter (sameRank z) (y # ys) = []" by (simp only: filter_empty_conv) blast
    with True Cons.prems(2) show ?thesis by simp
  next
    case False
    with Cons show ?thesis by simp
  qed
qed

lemma stable_sortBy_acc:
  "sorted_wrt (\<lambda>a b. outranks b a) acc \<Longrightarrow>
   filter (sameRank z) (foldl (\<lambda>sorted x. insertBy compareMerge x sorted) acc xs) =
     filter (sameRank z) acc @ filter (sameRank z) xs"
proof (induction xs arbitrary: acc)
  case Nil
  show ?case by simp
next
  case (Cons x xs)
  from Cons.IH[OF sorted_insertBy[OF Cons.prems], of x]
  show ?case
    by (cases "sameRank z x") (simp_all add: filter_insertBy_same[OF Cons.prems] filter_insertBy_other)
qed

lemma stable_sortBy:
  "filter (sameRank z) (sortBy compareMerge xs) = filter (sameRank z) xs"
  using stable_sortBy_acc[of "[]" z xs] by (simp add: sortBy_def)

lemma sortBy_nonempty: "xs \<noteq> [] \<Longrightarrow> sortBy cmp xs \<noteq> []"
  using mset_sortBy[of cmp xs] by (metis mset_zero_iff)

lemma set_sortBy: "set (sortBy cmp xs) = set xs"
  using mset_sortBy[of cmp xs] by (metis set_mset_mset)

lemma last_sorted_outranks:
  "sorted_wrt (\<lambda>a b. outranks b a) xs \<Longrightarrow> c \<in> set xs \<Longrightarrow> outranks (last xs) c"
proof (induction xs)
  case Nil
  then show ?case by simp
next
  case (Cons y ys)
  show ?case
  proof (cases "ys = []")
    case True
    with Cons.prems show ?thesis by (simp add: outranks_def)
  next
    case False
    then have "last ys \<in> set ys" by simp
    with Cons False show ?thesis by auto
  qed
qed

lemma resolve_merge:
  "2 \<le> length conflicts \<Longrightarrow> resolve conflicts MERGE = resolveByMerge conflicts"
  by (auto simp: resolve_def)

subsection \<open>The MERGE strategy: merging\<close>

text \<open>
  The values that an object literal or \<^verbatim>\<open>JSON.parse\<close> build, without the key \<^verbatim>\<open>__proto__\<close>:
  ordinary objects that hold no key twice and list their array indices first, at every
  depth.
\<close>

definition jsOrdered :: "string list \<Rightarrow> bool" where
  "jsOrdered ks = sorted_wrt (\<lambda>a b. \<not> precedes b a) ks"

fun plain :: "PreferenceValue \<Rightarrow> bool" where
  "plain (PObject es) =
     (distinct (map fst es) \<and> jsOrdered (map fst es) \<and> ''__proto__'' \<notin> set (map fst es) \<and>
      list_all (\<lambda>e. plain (snd e)) es)"
| "plain (PArray vs) = list_all plain vs"
| "plain (PDerived p es) = False"
| "plain _ = True"

definition tidy :: "(string \<times> PreferenceValue) list \<Rightarrow> bool" where
  "tidy es \<longleftrightarrow>
     distinct (map fst es) \<and> jsOrdered (map fst es) \<and> ''__proto__'' \<notin> set (map fst es)"

text \<open>The value of an own property of an object.\<close>

definition getProp :: "PreferenceValue \<Rightarrow> string \<Rightarrow> PreferenceValue option" where
  "getProp v k = map_of (objectEntries v) k"

text \<open>
  The merge of two mappings as the specification words it, key by key: the later
  mapping's value, the earlier one's where the later has none, and where both hold a
  mapping the merge of the two.
\<close>

definition specMergedAt ::
  "(string \<times> PreferenceValue) list \<Rightarrow> (string \<times> PreferenceValue) list \<Rightarrow> string
     \<Rightarrow> PreferenceValue option"
where
  "specMergedAt earlier later k =
     (case map_of later k of
        None \<Rightarrow> map_of earlier k
      | Some y \<Rightarrow>
          (case map_of earlier k of
             None \<Rightarrow> Some y
           | Some x \<Rightarrow> if isObject x \<and> isObject y then Some (deepMerge [x, y]) else Some y))"

lemma precedes_asym: "precedes a b \<Longrightarrow> \<not> precedes b a"
  by (auto simp: precedes_def split: option.splits)

lemma precedes_trans: "precedes a b \<Longrightarrow> precedes b c \<Longrightarrow> precedes a c"
  by (auto simp: precedes_def split: option.splits)

lemma map_of_replaceValue_at:
  "k \<in> set (map fst r) \<Longrightarrow> map_of (replaceValue r k v) x = ((map_of r)(k \<mapsto> v)) x"
proof (induction r k v rule: replaceValue.induct)
  case (1 k v)
  then show ?case by simp
next
  case (2 k' v' ps k v)
  show ?case
  proof (cases "k' = k")
    case True
    then show ?thesis by simp
  next
    case False
    with 2(2) have "k \<in> set (map fst ps)" by auto
    from 2(1)[OF False this] False show ?thesis by (auto split: if_splits)
  qed
qed

lemma map_of_replaceValue:
  "k \<in> set (map fst r) \<Longrightarrow> map_of (replaceValue r k v) = (map_of r)(k \<mapsto> v)"
  by (rule ext) (rule map_of_replaceValue_at)

lemma keys_replaceValue: "map fst (replaceValue r k v) = map fst r"
  by (induction r k v rule: replaceValue.induct) auto

lemma map_of_addKey:
  "k \<notin> set (map fst r) \<Longrightarrow> map_of (addKey r k v) = (map_of r)(k \<mapsto> v)"
  by (induction r k v rule: addKey.induct) (auto simp: fun_upd_twist)

lemma set_addKey: "set (addKey r k v) = insert (k, v) (set r)"
  by (induction r k v rule: addKey.induct) auto

lemma keys_addKey: "set (map fst (addKey r k v)) = insert k (set (map fst r))"
  by (simp add: set_addKey)

lemma distinct_addKey:
  "k \<notin> set (map fst r) \<Longrightarrow> distinct (map fst r) \<Longrightarrow> distinct (map fst (addKey r k v))"
  by (induction r k v rule: addKey.induct) (auto simp: set_addKey)

lemma addKey_last:
  "\<forall>k' \<in> set (map fst r). \<not> precedes k k' \<Longrightarrow> addKey r k v = r @ [(k, v)]"
  by (induction r k v rule: addKey.induct) auto

lemma jsOrdered_addKey:
  "jsOrdered (map fst r) \<Longrightarrow> jsOrdered (map fst (addKey r k v))"
proof (induction r k v rule: addKey.induct)
  case (1 k v)
  show ?case by (simp add: jsOrdered_def)
next
  case (2 k' v' ps k v)
  show ?case
  proof (cases "precedes k k'")
    case True
    from 2(2) have later: "\<forall>b \<in> set (map fst ps). \<not> precedes b k'" by (simp add: jsOrdered_def)
    have "\<not> precedes b k" if "b \<in> set (map fst ps)" for b
      using later that precedes_trans[OF _ True, of b] by blast
    with True 2(2) precedes_asym[OF True] show ?thesis by (simp add: jsOrdered_def)
  next
    case False
    from 2(2) have "jsOrdered (map fst ps)" by (simp add: jsOrdered_def)
    from 2(1)[OF False this] 2(2) False show ?thesis
      by (auto simp: jsOrdered_def keys_addKey simp flip: set_map)
  qed
qed

lemma map_of_writeOwn: "map_of (writeOwn r k v) = (map_of r)(k \<mapsto> v)"
  by (simp add: writeOwn_def map_of_replaceValue map_of_addKey)

lemma keys_writeOwn: "set (map fst (writeOwn r k v)) = insert k (set (map fst r))"
  by (auto simp: writeOwn_def keys_replaceValue keys_addKey simp flip: set_map)

lemma distinct_writeOwn: "distinct (map fst r) \<Longrightarrow> distinct (map fst (writeOwn r k v))"
  by (simp add: writeOwn_def keys_replaceValue distinct_addKey)

lemma jsOrdered_writeOwn: "jsOrdered (map fst r) \<Longrightarrow> jsOrdered (map fst (writeOwn r k v))"
  by (simp add: writeOwn_def keys_replaceValue jsOrdered_addKey)

lemma writeOwn_last:
  "k \<notin> set (map fst r) \<Longrightarrow> jsOrdered (map fst (r @ [(k, v)])) \<Longrightarrow> writeOwn r k v = r @ [(k, v)]"
  by (auto simp: writeOwn_def jsOrdered_def sorted_wrt_append intro!: addKey_last)

text \<open>Away from the key \<^verbatim>\<open>__proto__\<close> an ordinary object is read and written as a mapping.\<close>

lemma objectAt_ordinary:
  "k \<noteq> ''__proto__'' \<Longrightarrow>
   objectAt (PObject r) k =
     (case map_of r k of None \<Rightarrow> None | Some x \<Rightarrow> if isObject x then Some x else None)"
  by (simp add: objectAt_def builtin_def split: option.splits)

lemma assign_ordinary:
  "k \<noteq> ''__proto__'' \<Longrightarrow> assign (PObject r) k v = PObject (writeOwn r k v)"
  by (simp add: assign_def builtin_def split: option.splits)

lemma mergeEntries_ordinary:
  "''__proto__'' \<notin> set (map fst es) \<Longrightarrow>
   mergeEntries (PObject r) es = PObject (objectEntries (mergeEntries (PObject r) es))"
proof (induction es arbitrary: r)
  case Nil
  show ?case by simp
next
  case (Cons e es)
  obtain k v where e: "e = (k, v)" by (cases e)
  with Cons.prems have k: "k \<noteq> ''__proto__''" and es: "''__proto__'' \<notin> set (map fst es)" by auto
  from Cons.IH[OF es] e show ?case by (simp add: assign_ordinary[OF k])
qed

lemma mergeEntries_copy:
  "distinct (map fst (r @ es)) \<Longrightarrow> jsOrdered (map fst (r @ es)) \<Longrightarrow>
   ''__proto__'' \<notin> set (map fst es) \<Longrightarrow> mergeEntries (PObject r) es = PObject (r @ es)"
proof (induction es arbitrary: r)
  case Nil
  show ?case by simp
next
  case (Cons e es)
  obtain k v where e: "e = (k, v)" by (cases e)
  with Cons.prems have k: "k \<noteq> ''__proto__''" and es: "''__proto__'' \<notin> set (map fst es)" by auto
  from Cons.prems e have fresh: "k \<notin> set (map fst r)" by auto
  then have none: "map_of r k = None" by (simp add: map_of_eq_None_iff)
  from Cons.prems e have d: "distinct (map fst ((r @ [(k, v)]) @ es))"
    and o: "jsOrdered (map fst ((r @ [(k, v)]) @ es))" by auto
  from o have "jsOrdered (map fst (r @ [(k, v)]))" by (simp add: jsOrdered_def sorted_wrt_append)
  from writeOwn_last[OF fresh this] Cons.IH[OF d o es] e none show ?case
    by (simp add: isObjectAt_def objectAt_ordinary[OF k] assign_ordinary[OF k])
qed

lemma mergeEntries_lookup:
  "distinct (map fst es) \<Longrightarrow> ''__proto__'' \<notin> set (map fst es) \<Longrightarrow>
   map_of (objectEntries (mergeEntries (PObject r) es)) k =
     (case map_of es k of
        None \<Rightarrow> map_of r k
      | Some y \<Rightarrow>
          (case map_of r k of
             None \<Rightarrow> Some y
           | Some x \<Rightarrow> if isObject x \<and> isObject y then Some (deepMerge [x, y]) else Some y))"
proof (induction es arbitrary: r)
  case Nil
  show ?case by simp
next
  case (Cons e es)
  obtain k' v where e: "e = (k', v)" by (cases e)
  from Cons.prems e have d: "distinct (map fst es)" and nk: "map_of es k' = None"
    and k': "k' \<noteq> ''__proto__''" and es: "''__proto__'' \<notin> set (map fst es)"
    by (auto simp: map_of_eq_None_iff)
  show ?case
  proof (cases "k = k'")
    case True
    with nk e Cons.IH[OF d es] show ?thesis
      by (auto simp: map_of_writeOwn isObjectAt_def objectAt_ordinary[OF k'] assign_ordinary[OF k']
          split: option.splits)
  next
    case False
    with e Cons.IH[OF d es] show ?thesis
      by (auto simp: map_of_writeOwn assign_ordinary[OF k'] split: option.splits)
  qed
qed

lemma deepMerge_pair:
  "distinct (map fst ea) \<Longrightarrow> jsOrdered (map fst ea) \<Longrightarrow> ''__proto__'' \<notin> set (map fst ea) \<Longrightarrow>
   isObject b \<Longrightarrow> deepMerge [PObject ea, b] = mergeEntries (PObject ea) (objectEntries b)"
  using mergeEntries_copy[of "[]" ea] by (simp add: deepMerge.simps)

lemma tidy_writeOwn: "tidy r \<Longrightarrow> k \<noteq> ''__proto__'' \<Longrightarrow> tidy (writeOwn r k v)"
  using keys_writeOwn[of r k v] by (simp add: tidy_def distinct_writeOwn jsOrdered_writeOwn)

lemma tidy_mergeEntries:
  "''__proto__'' \<notin> set (map fst es) \<Longrightarrow> tidy r \<Longrightarrow> tidy (objectEntries (mergeEntries (PObject r) es))"
proof (induction es arbitrary: r)
  case Nil
  then show ?case by simp
next
  case (Cons e es)
  obtain k v where e: "e = (k, v)" by (cases e)
  with Cons.prems have k: "k \<noteq> ''__proto__''" and es: "''__proto__'' \<notin> set (map fst es)" by auto
  from Cons.IH[OF es tidy_writeOwn[OF Cons.prems(2) k]] e show ?case
    by (simp add: assign_ordinary[OF k])
qed

lemma deepMerge_step:
  assumes "tidy r" "isObject v"
  shows "deepMerge [PObject r, v] = mergeEntries (PObject r) (objectEntries v)"
  using assms deepMerge_pair[of r v] by (simp add: tidy_def)

lemma mergeValues_fold:
  "tidy r \<Longrightarrow> list_all (\<lambda>v. isObject v \<and> ''__proto__'' \<notin> set (map fst (objectEntries v))) vs \<Longrightarrow>
   mergeValues (PObject r) vs = foldl (\<lambda>acc v. deepMerge [acc, v]) (PObject r) vs"
proof (induction vs arbitrary: r)
  case Nil
  show ?case by simp
next
  case (Cons v vs)
  from Cons.prems have v: "isObject v" and k: "''__proto__'' \<notin> set (map fst (objectEntries v))"
    and vs: "list_all (\<lambda>v. isObject v \<and> ''__proto__'' \<notin> set (map fst (objectEntries v))) vs" by simp_all
  let ?r = "objectEntries (mergeEntries (PObject r) (objectEntries v))"
  have shape: "mergeEntries (PObject r) (objectEntries v) = PObject ?r"
    by (rule mergeEntries_ordinary[OF k])
  have "tidy ?r" by (rule tidy_mergeEntries[OF k Cons.prems(1)])
  from Cons.IH[OF this vs] shape deepMerge_step[OF Cons.prems(1) v] v show ?case by simp
qed

lemma deepMerge_fold:
  "list_all (\<lambda>v. isObject v \<and> ''__proto__'' \<notin> set (map fst (objectEntries v))) vs \<Longrightarrow>
   deepMerge vs = foldl (\<lambda>acc v. deepMerge [acc, v]) (PObject []) vs"
proof -
  assume a: "list_all (\<lambda>v. isObject v \<and> ''__proto__'' \<notin> set (map fst (objectEntries v))) vs"
  then have "list_all isObject vs" by (simp add: list_all_iff)
  moreover have "tidy []" by (simp add: tidy_def jsOrdered_def)
  ultimately show ?thesis using mergeValues_fold[OF _ a, of "[]"] by (simp add: deepMerge.simps)
qed

lemma deepMerge_not_all: "\<not> list_all isObject vs \<Longrightarrow> deepMerge vs = last vs"
  by (simp add: deepMerge.simps)

lemma deepMerge_getProp:
  assumes "tidy ea" "distinct (map fst eb)" "''__proto__'' \<notin> set (map fst eb)"
  shows "getProp (deepMerge [PObject ea, PObject eb]) k =
     (case map_of eb k of
        None \<Rightarrow> map_of ea k
      | Some y \<Rightarrow>
          (case map_of ea k of
             None \<Rightarrow> Some y
           | Some x \<Rightarrow> if isObject x \<and> isObject y then Some (deepMerge [x, y]) else Some y))"
  using deepMerge_step[OF assms(1), of "PObject eb"] mergeEntries_lookup[OF assms(2,3), of ea k]
  by (simp add: getProp_def)

lemma values_replaceValue:
  "list_all (\<lambda>e. plain (snd e)) r \<Longrightarrow> plain v \<Longrightarrow> list_all (\<lambda>e. plain (snd e)) (replaceValue r k v)"
  by (induction r k v rule: replaceValue.induct) auto

lemma values_addKey:
  "list_all (\<lambda>e. plain (snd e)) r \<Longrightarrow> plain v \<Longrightarrow> list_all (\<lambda>e. plain (snd e)) (addKey r k v)"
  by (simp add: list_all_iff set_addKey)

lemma values_writeOwn:
  "list_all (\<lambda>e. plain (snd e)) r \<Longrightarrow> plain v \<Longrightarrow> list_all (\<lambda>e. plain (snd e)) (writeOwn r k v)"
  by (simp add: writeOwn_def values_replaceValue values_addKey)

lemma plain_tidy: "plain (PObject r) \<longleftrightarrow> tidy r \<and> list_all (\<lambda>e. plain (snd e)) r"
  by (auto simp: tidy_def)

lemma plain_assign:
  "plain (PObject r) \<Longrightarrow> plain v \<Longrightarrow> k \<noteq> ''__proto__'' \<Longrightarrow> plain (assign (PObject r) k v)"
proof -
  assume p: "plain (PObject r)" and v: "plain v" and k: "k \<noteq> ''__proto__''"
  from p have "tidy r" "list_all (\<lambda>e. plain (snd e)) r" by (simp_all only: plain_tidy)
  with v k have "tidy (writeOwn r k v)" "list_all (\<lambda>e. plain (snd e)) (writeOwn r k v)"
    by (simp_all add: tidy_writeOwn values_writeOwn)
  then have "plain (PObject (writeOwn r k v))" by (simp only: plain_tidy)
  then show ?thesis by (simp add: assign_ordinary[OF k])
qed

lemma plain_lookup: "plain (PObject r) \<Longrightarrow> map_of r k = Some x \<Longrightarrow> plain x"
  by (induction r) (auto simp: jsOrdered_def split: if_splits)

lemma plain_last: "vs \<noteq> [] \<Longrightarrow> list_all plain vs \<Longrightarrow> plain (last vs)"
  by (induction vs) auto

lemma plain_object: "isObject v \<Longrightarrow> plain v \<Longrightarrow> \<exists>es. v = PObject es"
  by (cases v) auto

lemma plain_merge:
  "list_all plain values \<Longrightarrow> plain (deepMerge values)"
  "isObject result \<Longrightarrow> plain result \<Longrightarrow> list_all plain vs \<Longrightarrow>
     isObject (mergeValues result vs) \<and> plain (mergeValues result vs)"
  "isObject result \<Longrightarrow> plain result \<Longrightarrow> plain (PObject es) \<Longrightarrow>
     isObject (mergeEntries result es) \<and> plain (mergeEntries result es)"
proof (induction "values" and result vs and result es rule: deepMerge_mergeValues_mergeEntries.induct)
  case (1 "values")
  show ?case
  proof (cases "list_all isObject values")
    case True
    have "plain (PObject [])" by (simp add: jsOrdered_def)
    with 1 True show ?thesis by (simp add: deepMerge.simps)
  next
    case False
    then have "values \<noteq> []" by auto
    from plain_last[OF this 1(2)] False show ?thesis by (simp add: deepMerge.simps)
  qed
next
  case (2 result)
  then show ?case by simp
next
  case (3 result v rest)
  from 3(6) have pv: "plain v" and rest: "list_all plain rest" by simp_all
  show ?case
  proof (cases "isObject v")
    case True
    from plain_object[OF True pv] obtain es where v: "v = PObject es" by blast
    with pv have "plain (PObject (objectEntries v))" by simp
    from 3(1)[OF True 3(4) 3(5) this]
    have "isObject (mergeEntries result (objectEntries v))" "plain (mergeEntries result (objectEntries v))"
      by simp_all
    from 3(2)[OF True this rest] True show ?thesis by simp
  next
    case False
    from 3(3)[OF False 3(4) 3(5) rest] False show ?thesis by simp
  qed
next
  case (4 result)
  then show ?case by simp
next
  case (5 result k val es)
  from plain_object[OF 5(4) 5(5)] obtain r where result: "result = PObject r" by blast
  note res = 5(5)[unfolded result]
  from 5(6) have es: "plain (PObject es)" and val: "plain val" and k: "k \<noteq> ''__proto__''"
    by (auto simp: jsOrdered_def)
  show ?case
  proof (cases "isObject val \<and> isObjectAt result k")
    case True
    then obtain x where x: "objectAt result k = Some x" by (auto simp: isObjectAt_def)
    with result k have "map_of r k = Some x"
      by (auto simp: objectAt_ordinary split: option.splits if_splits)
    from plain_lookup[OF res this] val x 5(1)[OF True] have "plain (deepMerge [x, val])" by simp
    from plain_assign[OF res this k]
    have "isObject (assign result k (deepMerge [x, val]))" "plain (assign result k (deepMerge [x, val]))"
      by (simp_all add: result assign_ordinary[OF k])
    with 5(2)[OF True] x es True show ?thesis by simp
  next
    case False
    from plain_assign[OF res val k]
    have "isObject (assign result k val)" "plain (assign result k val)"
      by (simp_all add: result assign_ordinary[OF k])
    with 5(3)[OF False] es False show ?thesis by auto
  qed
qed

text \<open>
  On values without the key \<^verbatim>\<open>__proto__\<close> the merge is the one the specification describes.
  On two or more records MERGE sorts them ascending by priority, then timestamp, and
  merges their values pairwise in that order, starting from the empty mapping. The merge
  of an earlier and a later mapping has, under each key, the later mapping's value, the
  earlier one's where the later has none, and where both hold a mapping there the merge of
  the two, which obeys the same law one level down. When some value is not a mapping the
  merged value is the value of the last record in sort order.
\<close>

lemma resolve_merge_plain:
  assumes "2 \<le> length conflicts"
    and "list_all (\<lambda>c. plain (pvalue c)) conflicts"
  shows "\<exists>r. resolve conflicts MERGE = Inr r \<and>
     mset (sortBy compareMerge conflicts) = mset conflicts \<and>
     sorted_wrt (\<lambda>a b. priority a < priority b \<or> (priority a = priority b \<and> timestamp a \<le> timestamp b))
       (sortBy compareMerge conflicts) \<and>
     (list_all isObject (map pvalue conflicts) \<longrightarrow>
        pvalue r = foldl (\<lambda>merged v. deepMerge [merged, v]) (PObject [])
                     (map pvalue (sortBy compareMerge conflicts))) \<and>
     (\<not> list_all isObject (map pvalue conflicts) \<longrightarrow>
        pvalue r = pvalue (last (sortBy compareMerge conflicts))) \<and>
     plain (pvalue r) \<and>
     (\<forall>earlier later k. plain (PObject earlier) \<and> plain (PObject later) \<longrightarrow>
        plain (deepMerge [PObject earlier, PObject later]) \<and>
        getProp (deepMerge [PObject earlier, PObject later]) k = specMergedAt earlier later k)"
proof -
  let ?sorted = "sortBy compareMerge conflicts"
  from assms(1) have ne: "conflicts \<noteq> []" by auto
  have sne: "?sorted \<noteq> []" by (rule sortBy_nonempty[OF ne])
  let ?r = "(last ?sorted)\<lparr>pvalue := deepMerge (map pvalue ?sorted),
              source := ''merged['' @ join '','' (map source ?sorted) @ '']''\<rparr>"
  have r: "resolve conflicts MERGE = Inr ?r"
    using sne by (simp add: resolve_merge[OF assms(1)] resolveByMerge_def Let_def)
  have all_eq: "list_all isObject (map pvalue ?sorted) = list_all isObject (map pvalue conflicts)"
    by (simp add: list_all_iff set_sortBy)
  have sorted: "sorted_wrt (\<lambda>a b. priority a < priority b \<or> (priority a = priority b \<and> timestamp a \<le> timestamp b)) ?sorted"
    using sorted_sortBy[of conflicts] by (simp add: outranks_def)
  from assms(2) have pl_all: "list_all plain (map pvalue ?sorted)"
    by (simp add: list_all_iff set_sortBy)
  have merged: "pvalue ?r = foldl (\<lambda>merged v. deepMerge [merged, v]) (PObject []) (map pvalue ?sorted)"
    if objs: "list_all isObject (map pvalue conflicts)"
  proof -
    have "isObject v \<and> ''__proto__'' \<notin> set (map fst (objectEntries v))"
      if v: "v \<in> set (map pvalue ?sorted)" for v
    proof -
      from v objs all_eq pl_all have "isObject v" "plain v" by (auto simp: list_all_iff)
      from plain_object[OF this] obtain es where es: "v = PObject es" by blast
      from \<open>plain v\<close> es have "''__proto__'' \<notin> set (map fst es)" by simp
      with es show ?thesis by simp
    qed
    then have "list_all (\<lambda>v. isObject v \<and> ''__proto__'' \<notin> set (map fst (objectEntries v)))
        (map pvalue ?sorted)" unfolding list_all_iff by blast
    from deepMerge_fold[OF this] show ?thesis by simp
  qed
  have lastv: "pvalue ?r = pvalue (last ?sorted)" if "\<not> list_all isObject (map pvalue conflicts)"
    using that deepMerge_not_all[of "map pvalue ?sorted"] all_eq sne by (simp add: last_map)
  from pl_all have pl: "plain (pvalue ?r)" by (simp add: plain_merge(1))
  have law: "plain (deepMerge [PObject earlier, PObject later]) \<and>
        getProp (deepMerge [PObject earlier, PObject later]) k = specMergedAt earlier later k"
    if "plain (PObject earlier) \<and> plain (PObject later)" for earlier later k
  proof -
    from that have t: "tidy earlier" and d: "distinct (map fst later)"
      and p: "''__proto__'' \<notin> set (map fst later)" by (simp_all add: tidy_def)
    from that have "list_all plain [PObject earlier, PObject later]" by simp
    from plain_merge(1)[OF this] deepMerge_getProp[OF t d p, of k] show ?thesis
      by (simp add: specMergedAt_def)
  qed
  from r mset_sortBy[of compareMerge conflicts] sorted merged lastv pl law show ?thesis
    by blast
qed

text \<open>The definitions that a concrete merge unfolds.\<close>

lemmas merge_eval = resolve_def resolveByMerge_def sortBy_def compareMerge_def deepMerge.simps
  isObjectAt_def objectAt_def assign_def builtin_def writeOwn_def precedes_def arrayIndex_def
  digitValue_def element_def jsOrdered_def getProp_def specMergedAt_def Let_def

text \<open>
  Two records given in descending priority: \<^verbatim>\<open>n.y\<close> is overridden by the record of
  priority 75, \<^verbatim>\<open>n.x\<close>, \<^verbatim>\<open>a\<close> and \<^verbatim>\<open>b\<close> survive.
\<close>

lemma resolve_merge_plain_example:
  "2 \<le> length [\<lparr>key = ''ui'', pvalue = PObject [(''n'', PObject [(''y'', PNumber 3)]), (''b'', PNumber 2)],
        priority = 75, source = ''memory'', timestamp = 1, encrypted = None, validated = None, ttl = None\<rparr>,
       \<lparr>key = ''ui'', pvalue = PObject [(''a'', PNumber 1), (''n'', PObject [(''x'', PNumber 1), (''y'', PNumber 2)])],
        priority = 25, source = ''file'', timestamp = 1, encrypted = None, validated = None, ttl = None\<rparr>] \<and>
   list_all (\<lambda>c. plain (pvalue c)) [\<lparr>key = ''ui'', pvalue = PObject [(''n'', PObject [(''y'', PNumber 3)]), (''b'', PNumber 2)],
        priority = 75, source = ''memory'', timestamp = 1, encrypted = None, validated = None, ttl = None\<rparr>,
       \<lparr>key = ''ui'', pvalue = PObject [(''a'', PNumber 1), (''n'', PObject [(''x'', PNumber 1), (''y'', PNumber 2)])],
        priority = 25, source = ''file'', timestamp = 1, encrypted = None, validated = None, ttl = None\<rparr>] \<and>
   resolve [\<lparr>key = ''ui'', pvalue = PObject [(''n'', PObject [(''y'', PNumber 3)]), (''b'', PNumber 2)],
        priority = 75, source = ''memory'', timestamp = 1, encrypted = None, validated = None, ttl = None\<rparr>,
       \<lparr>key = ''ui'', pvalue = PObject [(''a'', PNumber 1), (''n'', PObject [(''x'', PNumber 1), (''y'', PNumber 2)])],
        priority = 25, source = ''file'', timestamp = 1, encrypted = None, validated = None, ttl = None\<rparr>] MERGE =
     Inr \<lparr>key = ''ui'', pvalue = PObject [(''a'', PNumber 1), (''n'', PObject [(''x'', PNumber 1), (''y'', PNumber 3)]), (''b'', PNumber 2)],
        priority = 75, source = ''merged[file,memory]'', timestamp = 1, encrypted = None, validated = None, ttl = None\<rparr>"
  using resolve_merge_plain[of "[\<lparr>key = ''ui'', pvalue = PObject [(''n'', PObject [(''y'', PNumber 3)]), (''b'', PNumber 2)],
        priority = 75, source = ''memory'', timestamp = 1, encrypted = None, validated = None, ttl = None\<rparr>,
       \<lparr>key = ''ui'', pvalue = PObject [(''a'', PNumber 1), (''n'', PObject [(''x'', PNumber 1), (''y'', PNumber 2)])],
        priority = 25, source = ''file'', timestamp = 1, encrypted = None, validated = None, ttl = None\<rparr>]"]
  by (simp add: merge_eval)

text \<open>
  C2. The claim says that at every level where both sides are mappings the later record's
  keys override the earlier one's. For the key \<^verbatim>\<open>__proto__\<close> that fails. The value of the
  later record below is what \<^verbatim>\<open>JSON.parse\<close> builds from
  \<^verbatim>\<open>{"__proto__": {"admin": true}, "lang": "en"}\<close>: a mapping with the keys \<^verbatim>\<open>__proto__\<close>
  and \<^verbatim>\<open>lang\<close>. Merged key by key, the result would hold \<^verbatim>\<open>__proto__\<close> with the later
  record's value. \<^verbatim>\<open>deepMerge\<close> writes the entry with \<^verbatim>\<open>result[key] = ...\<close>, which for
  this key calls the setter of \<^verbatim>\<open>Object.prototype\<close>: the merged value has the keys
  \<^verbatim>\<open>theme\<close> and \<^verbatim>\<open>lang\<close> only, and the mapping \<^verbatim>\<open>{"admin": true}\<close> has become its
  prototype.
\<close>

theorem resolve_merge_proto_key:
  "resolve [\<lparr>key = ''settings'', pvalue = PObject [(''theme'', PString ''dark'')],
        priority = 25, source = ''file'', timestamp = 1, encrypted = None, validated = None, ttl = None\<rparr>,
       \<lparr>key = ''settings'',
        pvalue = PObject [(''__proto__'', PObject [(''admin'', PBoolean True)]), (''lang'', PString ''en'')],
        priority = 75, source = ''env'', timestamp = 2, encrypted = None, validated = None, ttl = None\<rparr>] MERGE =
     Inr \<lparr>key = ''settings'',
        pvalue = PDerived (PObject [(''admin'', PBoolean True)])
                   [(''theme'', PString ''dark''), (''lang'', PString ''en'')],
        priority = 75, source = ''merged[file,env]'', timestamp = 2, encrypted = None, validated = None, ttl = None\<rparr> \<and>
   specMergedAt [(''theme'', PString ''dark'')]
       [(''__proto__'', PObject [(''admin'', PBoolean True)]), (''lang'', PString ''en'')] ''__proto__'' =
     Some (PObject [(''admin'', PBoolean True)]) \<and>
   getProp (deepMerge [PObject [(''theme'', PString ''dark'')],
       PObject [(''__proto__'', PObject [(''admin'', PBoolean True)]), (''lang'', PString ''en'')]]) ''__proto__'' =
     None"
  by (simp add: merge_eval)

subsection \<open>The MERGE strategy: the metadata of the result\<close>

text \<open>
  The label as the specification words it: the sources in the order of the input.
\<close>

definition specLabelInInputOrder :: "PreferenceMetadata list \<Rightarrow> string" where
  "specLabelInInputOrder conflicts = ''merged['' @ join '','' (map source conflicts) @ '']''"

text \<open>
  C3 as stated fails: \<^verbatim>\<open>resolveByMerge\<close> builds the label from \<^verbatim>\<open>sorted\<close>, not from
  \<^verbatim>\<open>conflicts\<close>. Given the record of \<^verbatim>\<open>env\<close> (priority 75) before the record of \<^verbatim>\<open>file\<close>
  (priority 25), the label is \<^verbatim>\<open>merged[file,env]\<close>; the input order would give
  \<^verbatim>\<open>merged[env,file]\<close>.
\<close>

theorem merge_label_counterexample:
  "resolve [\<lparr>key = ''theme'', pvalue = PObject [(''mode'', PString ''dark'')],
        priority = 75, source = ''env'', timestamp = 5, encrypted = None, validated = None, ttl = None\<rparr>,
       \<lparr>key = ''theme'', pvalue = PObject [(''font'', PNumber 14)],
        priority = 25, source = ''file'', timestamp = 9, encrypted = None, validated = None, ttl = Some 60\<rparr>] MERGE =
     Inr \<lparr>key = ''theme'', pvalue = PObject [(''font'', PNumber 14), (''mode'', PString ''dark'')],
        priority = 75, source = ''merged[file,env]'', timestamp = 5, encrypted = None, validated = None, ttl = None\<rparr> \<and>
   specLabelInInputOrder [\<lparr>key = ''theme'', pvalue = PObject [(''mode'', PString ''dark'')],
        priority = 75, source = ''env'', timestamp = 5, encrypted = None, validated = None, ttl = None\<rparr>,
       \<lparr>key = ''theme'', pvalue = PObject [(''font'', PNumber 14)],
        priority = 25, source = ''file'', timestamp = 9, encrypted = None, validated = None, ttl = Some 60\<rparr>] = ''merged[env,file]''"
  by (simp add: merge_eval specLabelInInputOrder_def)

text \<open>
  C3, amended. On two or more records the MERGE result is a copy of the last record in
  sort order, which is one of the input records and which no record outranks; its value
  is the merged value and its source is \<^verbatim>\<open>merged[...]\<close> around the comma-joined sources in
  sort order: ascending by priority, then timestamp, records equal in both keeping the
  order of the input.
\<close>

theorem resolve_merge_metadata:
  assumes "2 \<le> length conflicts"
  shows "\<exists>r h. resolve conflicts MERGE = Inr r \<and>
     h = last (sortBy compareMerge conflicts) \<and> h \<in> set conflicts \<and>
     (\<forall>c \<in> set conflicts. priority c \<le> priority h \<and>
        (priority c = priority h \<longrightarrow> timestamp c \<le> timestamp h)) \<and>
     key r = key h \<and> priority r = priority h \<and> timestamp r = timestamp h \<and>
     encrypted r = encrypted h \<and> validated r = validated h \<and> ttl r = ttl h \<and>
     pvalue r = deepMerge (map pvalue (sortBy compareMerge conflicts)) \<and>
     source r = ''merged['' @ join '','' (map source (sortBy compareMerge conflicts)) @ '']'' \<and>
     mset (sortBy compareMerge conflicts) = mset conflicts \<and>
     sorted_wrt (\<lambda>a b. priority a < priority b \<or> (priority a = priority b \<and> timestamp a \<le> timestamp b))
       (sortBy compareMerge conflicts) \<and>
     (\<forall>z. filter (sameRank z) (sortBy compareMerge conflicts) = filter (sameRank z) conflicts)"
proof -
  let ?sorted = "sortBy compareMerge conflicts"
  let ?h = "last ?sorted"
  from assms have ne: "conflicts \<noteq> []" by auto
  have sne: "?sorted \<noteq> []" by (rule sortBy_nonempty[OF ne])
  let ?r = "?h\<lparr>pvalue := deepMerge (map pvalue ?sorted),
              source := ''merged['' @ join '','' (map source ?sorted) @ '']''\<rparr>"
  have r: "resolve conflicts MERGE = Inr ?r"
    using sne by (simp add: resolve_merge[OF assms] resolveByMerge_def Let_def)
  have h: "?h \<in> set conflicts" using last_in_set[OF sne] by (simp add: set_sortBy)
  have top: "\<forall>c \<in> set conflicts. priority c \<le> priority ?h \<and>
        (priority c = priority ?h \<longrightarrow> timestamp c \<le> timestamp ?h)"
    using last_sorted_outranks[OF sorted_sortBy, of _ conflicts]
    by (fastforce simp: set_sortBy outranks_def)
  have sorted: "sorted_wrt (\<lambda>a b. priority a < priority b \<or> (priority a = priority b \<and> timestamp a \<le> timestamp b)) ?sorted"
    using sorted_sortBy[of conflicts] by (simp add: outranks_def)
  have fields: "key ?r = key ?h \<and> priority ?r = priority ?h \<and> timestamp ?r = timestamp ?h \<and>
     encrypted ?r = encrypted ?h \<and> validated ?r = validated ?h \<and> ttl ?r = ttl ?h \<and>
     pvalue ?r = deepMerge (map pvalue ?sorted) \<and>
     source ?r = ''merged['' @ join '','' (map source ?sorted) @ '']''"
    by simp
  from r h top fields mset_sortBy[of compareMerge conflicts] sorted stable_sortBy[of _ conflicts]
  show ?thesis by blast
qed

text \<open>
  Three records, two of them of equal rank: the sources are listed in sort order, the two
  records of priority 50 in the order of the input, and the last of them is copied.
\<close>

theorem resolve_merge_metadata_witness:
  "2 \<le> length [\<lparr>key = ''k'', pvalue = PString ''one'', priority = 50, source = ''c'', timestamp = 7,
        encrypted = None, validated = None, ttl = None\<rparr>,
       \<lparr>key = ''k'', pvalue = PObject [(''x'', PNull)], priority = 0, source = ''a'', timestamp = 7,
        encrypted = None, validated = None, ttl = None\<rparr>,
       \<lparr>key = ''k'', pvalue = PString ''three'', priority = 50, source = ''b'', timestamp = 7,
        encrypted = Some True, validated = None, ttl = None\<rparr>] \<and>
   resolve [\<lparr>key = ''k'', pvalue = PString ''one'', priority = 50, source = ''c'', timestamp = 7,
        encrypted = None, validated = None, ttl = None\<rparr>,
       \<lparr>key = ''k'', pvalue = PObject [(''x'', PNull)], priority = 0, source = ''a'', timestamp = 7,
        encrypted = None, validated = None, ttl = None\<rparr>,
       \<lparr>key = ''k'', pvalue = PString ''three'', priority = 50, source = ''b'', timestamp = 7,
        encrypted = Some True, validated = None, ttl = None\<rparr>] MERGE =
     Inr \<lparr>key = ''k'', pvalue = PString ''three'', priority = 50, source = ''merged[a,c,b]'', timestamp = 7,
        encrypted = Some True, validated = None, ttl = None\<rparr>"
  using resolve_merge_metadata[of "[\<lparr>key = ''k'', pvalue = PString ''one'', priority = 50, source = ''c'', timestamp = 7,
        encrypted = None, validated = None, ttl = None\<rparr>,
       \<lparr>key = ''k'', pvalue = PObject [(''x'', PNull)], priority = 0, source = ''a'', timestamp = 7,
        encrypted = None, validated = None, ttl = None\<rparr>,
       \<lparr>key = ''k'', pvalue = PString ''three'', priority = 50, source = ''b'', timestamp = 7,
        encrypted = Some True, validated = None, ttl = None\<rparr>]"]
  by (simp add: merge_eval)


section \<open>LRUCache (src/utils/cache)\<close>

text \<open>
  A JavaScript \<^verbatim>\<open>Map\<close> with string keys, as the list of its entries in insertion order:
  \<^verbatim>\<open>set\<close> replaces the value of a key that is present where it stands and appends a new
  key, \<^verbatim>\<open>delete\<close> removes the key, \<^verbatim>\<open>has\<close> tests it, \<^verbatim>\<open>get\<close> is \<open>map_of\<close> and \<^verbatim>\<open>size\<close> the
  length.
\<close>

fun mapSet :: "('k \<times> 'v) list \<Rightarrow> 'k \<Rightarrow> 'v \<Rightarrow> ('k \<times> 'v) list" where
  "mapSet [] k v = [(k, v)]"
| "mapSet ((k', v') # ps) k v = (if k' = k then (k, v) # ps else (k', v') # mapSet ps k v)"

definition mapDelete :: "('k \<times> 'v) list \<Rightarrow> 'k \<Rightarrow> ('k \<times> 'v) list" where
  "mapDelete m k = filter (\<lambda>e. fst e \<noteq> k) m"

definition mapHas :: "('k \<times> 'v) list \<Rightarrow> 'k \<Rightarrow> bool" where
  "mapHas m k = (map_of m k \<noteq> None)"

text \<open>\<^verbatim>\<open>CacheEntry\<close>: the field \<^verbatim>\<open>value\<close> is called \<open>cached\<close> here.\<close>

record CacheEntry =
  cached :: PreferenceMetadata
  expiresAt :: int

text \<open>
  The state of an \<^verbatim>\<open>LRUCache\<close>; \<^verbatim>\<open>maxSize\<close> and \<^verbatim>\<open>defaultTTL\<close> are numbers, read as
  integers. \<^verbatim>\<open>Date.now()\<close> is an argument \<open>now\<close> of the methods that read the clock. The
  methods \<^verbatim>\<open>get\<close>, \<^verbatim>\<open>set\<close>, \<^verbatim>\<open>has\<close>, \<^verbatim>\<open>delete\<close>, \<^verbatim>\<open>clear\<close> and \<^verbatim>\<open>size\<close> carry the prefix
  \<open>lru_\<close>, and return the state of the cache next to their result.
\<close>

record LRUCache =
  cache :: "(string \<times> CacheEntry) list"
  accessOrder :: "string list"
  maxSize :: int
  defaultTTL :: int

definition newLRUCache :: "int \<Rightarrow> int \<Rightarrow> LRUCache" where
  "newLRUCache maxSize' defaultTTL' =
     \<lparr>cache = [], accessOrder = [], maxSize = maxSize', defaultTTL = defaultTTL'\<rparr>"

text \<open>
  \<^verbatim>\<open>indexOf\<close> followed by \<^verbatim>\<open>splice(index, 1)\<close> removes the first occurrence of the key, and
  nothing when there is none: \<open>remove1\<close>.
\<close>

definition removeFromAccessOrder :: "LRUCache \<Rightarrow> string \<Rightarrow> LRUCache" where
  "removeFromAccessOrder c k = c\<lparr>accessOrder := remove1 k (accessOrder c)\<rparr>"

definition updateAccessOrder :: "LRUCache \<Rightarrow> string \<Rightarrow> LRUCache" where
  "updateAccessOrder c k =
     (let c1 = removeFromAccessOrder c k in c1\<lparr>accessOrder := accessOrder c1 @ [k]\<rparr>)"

definition lru_delete :: "LRUCache \<Rightarrow> string \<Rightarrow> bool \<times> LRUCache" where
  "lru_delete c k =
     (let c1 = removeFromAccessOrder c k
      in (mapHas (cache c1) k, c1\<lparr>cache := mapDelete (cache c1) k\<rparr>))"

definition evictOldest :: "LRUCache \<Rightarrow> LRUCache" where
  "evictOldest c =
     (case accessOrder c of
        [] \<Rightarrow> c
      | oldestKey # _ \<Rightarrow> snd (lru_delete c oldestKey))"

definition lru_get :: "LRUCache \<Rightarrow> int \<Rightarrow> string \<Rightarrow> PreferenceMetadata option \<times> LRUCache" where
  "lru_get c now k =
     (case map_of (cache c) k of
        None \<Rightarrow> (None, c)
      | Some entry \<Rightarrow>
          if now > expiresAt entry then (None, snd (lru_delete c k))
          else (Some (cached entry), updateAccessOrder c k))"

text \<open>\<^verbatim>\<open>ttl || this.defaultTTL\<close>: an absent ttl and the ttl 0 give the default.\<close>

definition orDefault :: "int option \<Rightarrow> int \<Rightarrow> int" where
  "orDefault ttl' d = (case ttl' of None \<Rightarrow> d | Some t \<Rightarrow> if t = 0 then d else t)"

definition lru_set :: "LRUCache \<Rightarrow> int \<Rightarrow> string \<Rightarrow> PreferenceMetadata \<Rightarrow> int option \<Rightarrow> LRUCache" where
  "lru_set c now k v ttl' =
     (let expires = now + orDefault ttl' (defaultTTL c);
          c1 = (if mapHas (cache c) k then removeFromAccessOrder c k else c);
          c2 = c1\<lparr>cache := mapSet (cache c1) k \<lparr>cached = v, expiresAt = expires\<rparr>\<rparr>;
          c3 = c2\<lparr>accessOrder := accessOrder c2 @ [k]\<rparr>
      in if int (length (cache c3)) > maxSize c3 then evictOldest c3 else c3)"

definition lru_has :: "LRUCache \<Rightarrow> int \<Rightarrow> string \<Rightarrow> bool \<times> LRUCache" where
  "lru_has c now k =
     (case map_of (cache c) k of
        None \<Rightarrow> (False, c)
      | Some entry \<Rightarrow>
          if now > expiresAt entry then (False, snd (lru_delete c k))
          else (True, c))"

definition lru_clear :: "LRUCache \<Rightarrow> LRUCache" where
  "lru_clear c = c\<lparr>cache := [], accessOrder := []\<rparr>"

definition lru_size :: "LRUCache \<Rightarrow> nat" where
  "lru_size c = length (cache c)"

section \<open>Properties of the LRUCache\<close>

text \<open>
  The keys the cache holds, and the invariant of a cache built from \<open>newLRUCache\<close> by its
  methods: the recency order lists exactly the keys of the map, each once, and the map is
  not over capacity.
\<close>

definition keysOf :: "LRUCache \<Rightarrow> string set" where
  "keysOf c = fst ` set (cache c)"

definition cacheInv :: "LRUCache \<Rightarrow> bool" where
  "cacheInv c \<longleftrightarrow> distinct (map fst (cache c)) \<and> distinct (accessOrder c) \<and>
     set (accessOrder c) = keysOf c \<and> int (length (cache c)) \<le> max 0 (maxSize c)"

lemma keys_mapSet: "fst ` set (mapSet m k v) = insert k (fst ` set m)"
  by (induction m k v rule: mapSet.induct) auto

lemma map_fst_mapSet:
  "map fst (mapSet m k v) = (if k \<in> fst ` set m then map fst m else map fst m @ [k])"
  by (induction m k v rule: mapSet.induct) auto

lemma length_mapSet:
  "length (mapSet m k v) = (if k \<in> fst ` set m then length m else Suc (length m))"
  using arg_cong[OF map_fst_mapSet[of m k v], of length] by (simp split: if_splits)

lemma map_of_mapSet: "map_of (mapSet m k v) = (map_of m)(k \<mapsto> v)"
  by (induction m k v rule: mapSet.induct) auto

lemma keys_mapDelete: "fst ` set (mapDelete m k) = fst ` set m - {k}"
  by (auto simp: mapDelete_def)

lemma map_fst_mapDelete: "map fst (mapDelete m k) = filter (\<lambda>k'. k' \<noteq> k) (map fst m)"
  by (simp add: mapDelete_def filter_map comp_def)

lemma length_mapDelete:
  "distinct (map fst m) \<Longrightarrow> k \<in> fst ` set m \<Longrightarrow> Suc (length (mapDelete m k)) = length m"
proof (induction m)
  case Nil
  then show ?case by simp
next
  case (Cons e m)
  show ?case
  proof (cases "fst e = k")
    case True
    with Cons.prems have "filter (\<lambda>e. fst e \<noteq> k) m = m"
      by (auto simp: filter_id_conv image_iff)
    with True show ?thesis by (simp add: mapDelete_def)
  next
    case False
    with Cons show ?thesis by (auto simp: mapDelete_def)
  qed
qed

lemma mapHas_iff: "mapHas m k \<longleftrightarrow> k \<in> fst ` set m"
  by (simp add: mapHas_def map_of_eq_None_iff)

lemma new_inv: "cacheInv (newLRUCache n d)"
  by (simp add: cacheInv_def newLRUCache_def keysOf_def)

lemma remove1_absent: "cacheInv c \<Longrightarrow> k \<notin> keysOf c \<Longrightarrow> remove1 k (accessOrder c) = accessOrder c"
  by (simp add: cacheInv_def remove1_idem)

text \<open>What \<open>lru_set\<close> comes to on a cache that satisfies the invariant.\<close>

lemma lru_set_normal:
  assumes "cacheInv c"
  shows "lru_set c now k v ttl' =
     (let entry = \<lparr>cached = v, expiresAt = now + orDefault ttl' (defaultTTL c)\<rparr>;
          m = mapSet (cache c) k entry;
          order = remove1 k (accessOrder c) @ [k]
      in if int (length m) > maxSize c
         then c\<lparr>cache := mapDelete m (hd order), accessOrder := tl order\<rparr>
         else c\<lparr>cache := m, accessOrder := order\<rparr>)"
proof -
  let ?entry = "\<lparr>cached = v, expiresAt = now + orDefault ttl' (defaultTTL c)\<rparr>"
  let ?m = "mapSet (cache c) k ?entry"
  let ?o = "remove1 k (accessOrder c) @ [k]"
  let ?c3 = "c\<lparr>cache := ?m, accessOrder := ?o\<rparr>"
  have o: "(if mapHas (cache c) k then remove1 k (accessOrder c) else accessOrder c) =
             remove1 k (accessOrder c)"
    using remove1_absent[OF assms, of k] by (simp add: mapHas_iff keysOf_def)
  have step: "lru_set c now k v ttl' =
      (if int (length (cache ?c3)) > maxSize ?c3 then evictOldest ?c3 else ?c3)"
    using o by (simp add: lru_set_def Let_def removeFromAccessOrder_def if_distrib[of accessOrder]
        if_distrib[of cache] cong: if_cong)
  obtain x xs where xs: "?o = x # xs" by (cases ?o) auto
  have "evictOldest ?c3 = c\<lparr>cache := mapDelete ?m (hd ?o), accessOrder := tl ?o\<rparr>"
    unfolding evictOldest_def lru_delete_def removeFromAccessOrder_def Let_def
    by (simp add: xs)
  with step show ?thesis by (simp add: Let_def)
qed

text \<open>A call that adds a key to a cache that is full.\<close>

definition grows :: "LRUCache \<Rightarrow> string \<Rightarrow> bool" where
  "grows c k \<longleftrightarrow> k \<notin> keysOf c \<and> maxSize c \<le> int (length (cache c))"

lemma lru_set_cases:
  assumes inv: "cacheInv c"
  shows "lru_set c now k v ttl' =
     (let m = mapSet (cache c) k \<lparr>cached = v, expiresAt = now + orDefault ttl' (defaultTTL c)\<rparr>;
          order = remove1 k (accessOrder c) @ [k]
      in if grows c k
         then c\<lparr>cache := mapDelete m (hd order), accessOrder := tl order\<rparr>
         else c\<lparr>cache := m, accessOrder := order\<rparr>)"
proof -
  have pos: "1 \<le> int (length (cache c))" if "k \<in> keysOf c"
    using that by (cases "cache c") (auto simp: keysOf_def)
  have fits: "\<not> maxSize c < int (length (cache c))" if "k \<in> keysOf c"
    using pos[OF that] inv by (simp add: cacheInv_def max_def split: if_splits)
  have "int (length (mapSet (cache c) k e)) > maxSize c \<longleftrightarrow> grows c k" for e
    using fits by (auto simp: length_mapSet grows_def keysOf_def[symmetric])
  then show ?thesis by (simp add: lru_set_normal[OF inv] Let_def)
qed

lemma lru_set_order:
  assumes "cacheInv c"
  shows "accessOrder (lru_set c now k v ttl') =
     (if grows c k then tl (accessOrder c @ [k]) else remove1 k (accessOrder c) @ [k])"
  using remove1_absent[OF assms, of k]
  by (auto simp: lru_set_cases[OF assms] Let_def grows_def)

lemma lru_set_keys:
  assumes "cacheInv c"
  shows "keysOf (lru_set c now k v ttl') =
     (if grows c k then insert k (keysOf c) - {hd (accessOrder c @ [k])} else insert k (keysOf c))"
  using remove1_absent[OF assms, of k]
  by (auto simp: lru_set_cases[OF assms] Let_def grows_def keysOf_def keys_mapSet keys_mapDelete)

lemma lru_set_inv:
  assumes inv: "cacheInv c"
  shows "cacheInv (lru_set c now k v ttl')"
proof -
  let ?m = "mapSet (cache c) k \<lparr>cached = v, expiresAt = now + orDefault ttl' (defaultTTL c)\<rparr>"
  let ?o = "remove1 k (accessOrder c) @ [k]"
  from inv have dm: "distinct (map fst ?m)" by (auto simp: cacheInv_def map_fst_mapSet)
  from inv have d: "distinct ?o" by (auto simp: cacheInv_def)
  from inv have s: "set ?o = fst ` set ?m" by (auto simp: cacheInv_def keys_mapSet keysOf_def)
  show ?thesis
  proof (cases "grows c k")
    case False
    then have "int (length ?m) \<le> max 0 (maxSize c)"
      using inv by (auto simp: grows_def length_mapSet cacheInv_def keysOf_def)
    with False dm d s show ?thesis
      by (simp add: lru_set_cases[OF inv] Let_def cacheInv_def keysOf_def)
  next
    case True
    obtain x xs where xs: "?o = x # xs" by (cases ?o) auto
    from xs s have xin: "x \<in> fst ` set ?m" by auto
    from length_mapDelete[OF dm xin] True inv
    have len: "int (length (mapDelete ?m x)) \<le> max 0 (maxSize c)"
      by (auto simp: grows_def length_mapSet cacheInv_def keysOf_def)
    from dm have dm': "distinct (map fst (mapDelete ?m x))" by (simp add: map_fst_mapDelete)
    from d xs have d': "distinct xs" "x \<notin> set xs" by auto
    from s xs d' have s': "set xs = fst ` set (mapDelete ?m x)"
      by (auto simp: keys_mapDelete)
    from True len dm' d' s' xs show ?thesis
      by (simp add: lru_set_cases[OF inv] Let_def cacheInv_def keysOf_def)
  qed
qed

lemma lru_get_hit:
  assumes "lru_get c now k = (Some m, c')"
  shows "c' = c\<lparr>accessOrder := remove1 k (accessOrder c) @ [k]\<rparr>"
    and "\<exists>entry. map_of (cache c) k = Some entry \<and> cached entry = m \<and> now \<le> expiresAt entry"
    and "k \<in> keysOf c"
proof -
  from assms obtain entry where e: "map_of (cache c) k = Some entry"
    by (auto simp: lru_get_def split: option.splits)
  from assms e show "c' = c\<lparr>accessOrder := remove1 k (accessOrder c) @ [k]\<rparr>"
    by (auto simp: lru_get_def updateAccessOrder_def removeFromAccessOrder_def Let_def
        split: if_splits)
  from assms e show "\<exists>entry. map_of (cache c) k = Some entry \<and> cached entry = m \<and> now \<le> expiresAt entry"
    by (auto simp: lru_get_def split: if_splits)
  from map_of_SomeD[OF e] show "k \<in> keysOf c" by (force simp: keysOf_def)
qed

lemma lru_get_hit_inv:
  assumes inv: "cacheInv c" and hit: "lru_get c now k = (Some m, c')"
  shows "cacheInv c'"
proof -
  from lru_get_hit(3)[OF hit] inv have "k \<in> set (accessOrder c)" by (simp add: cacheInv_def)
  with inv show ?thesis
    unfolding lru_get_hit(1)[OF hit] by (auto simp: cacheInv_def keysOf_def)
qed

lemma protected_after_hit:
  assumes inv: "cacheInv c" and hit: "lru_get c now k = (Some m, c')"
    and room: "2 \<le> maxSize c"
  shows "k \<in> keysOf (lru_set c' now' k' v' ttl')"
proof -
  note c' = lru_get_hit(1)[OF hit] and kin = lru_get_hit(3)[OF hit]
  note inv' = lru_get_hit_inv[OF inv hit]
  from c' have keys': "keysOf c' = keysOf c" and len: "length (cache c') = length (cache c)"
    and mx: "maxSize c' = maxSize c" by (simp_all add: keysOf_def)
  show ?thesis
  proof (cases "grows c' k'")
    case False
    then show ?thesis using lru_set_keys[OF inv', of now' k' v' ttl'] kin keys' by simp
  next
    case True
    then have k': "k' \<noteq> k" and full: "maxSize c \<le> int (length (cache c))"
      using kin keys' len mx by (auto simp: grows_def)
    from inv have "length (accessOrder c) = length (cache c)"
      by (metis cacheInv_def keysOf_def distinct_card length_map list.set_map)
    with full room have "2 \<le> length (accessOrder c)" by simp
    moreover from inv kin have "length (remove1 k (accessOrder c)) = length (accessOrder c) - 1"
      by (simp add: cacheInv_def length_remove1)
    ultimately obtain y ys where r: "remove1 k (accessOrder c) = y # ys"
      by (cases "remove1 k (accessOrder c)") auto
    from inv have "k \<notin> set (remove1 k (accessOrder c))" by (simp add: cacheInv_def)
    with r have "y \<noteq> k" by auto
    with r c' have "hd (accessOrder c' @ [k']) \<noteq> k" by simp
    with True show ?thesis using lru_set_keys[OF inv', of now' k' v' ttl'] kin keys' by simp
  qed
qed


lemma lru_set_maxSize: "cacheInv c \<Longrightarrow> maxSize (lru_set c now k v ttl') = maxSize c"
  by (simp add: lru_set_cases Let_def)

lemma lru_set_length:
  "cacheInv c \<Longrightarrow> \<not> grows c k \<Longrightarrow>
   length (cache (lru_set c now k v ttl')) = (if k \<in> keysOf c then length (cache c) else Suc (length (cache c)))"
  by (simp add: lru_set_cases Let_def length_mapSet keysOf_def)

text \<open>A sequence of \<^verbatim>\<open>set\<close> calls, each with its own clock reading, key, value and ttl.\<close>

type_synonym setCall = "int \<times> string \<times> PreferenceMetadata \<times> int option"

fun setAll :: "LRUCache \<Rightarrow> setCall list \<Rightarrow> LRUCache" where
  "setAll c [] = c"
| "setAll c ((now, k, v, ttl') # calls) = setAll (lru_set c now k v ttl') calls"

definition calledKeys :: "setCall list \<Rightarrow> string list" where
  "calledKeys calls = map (\<lambda>call. fst (snd call)) calls"

lemma setAll_append: "setAll c (xs @ ys) = setAll (setAll c xs) ys"
  by (induction xs arbitrary: c) auto

lemma setAll_fill:
  "cacheInv c \<Longrightarrow> distinct (calledKeys calls) \<Longrightarrow> set (calledKeys calls) \<inter> keysOf c = {} \<Longrightarrow>
   int (length (cache c) + length calls) \<le> maxSize c \<Longrightarrow>
   cacheInv (setAll c calls) \<and> maxSize (setAll c calls) = maxSize c \<and>
   accessOrder (setAll c calls) = accessOrder c @ calledKeys calls \<and>
   keysOf (setAll c calls) = keysOf c \<union> set (calledKeys calls) \<and>
   length (cache (setAll c calls)) = length (cache c) + length calls"
proof (induction calls arbitrary: c)
  case Nil
  then show ?case by (simp add: calledKeys_def)
next
  case (Cons call calls)
  obtain now k v ttl' where call: "call = (now, k, v, ttl')" by (cases call) auto
  let ?c = "lru_set c now k v ttl'"
  from Cons.prems call have k: "k \<notin> keysOf c" and ng: "\<not> grows c k"
    by (auto simp: calledKeys_def grows_def)
  note inv = Cons.prems(1)
  have 1: "cacheInv ?c" by (rule lru_set_inv[OF inv])
  have 2: "maxSize ?c = maxSize c" by (rule lru_set_maxSize[OF inv])
  have 3: "accessOrder ?c = accessOrder c @ [k]"
    using ng remove1_absent[OF inv k] by (simp add: lru_set_order[OF inv])
  have 4: "keysOf ?c = insert k (keysOf c)" using ng by (simp add: lru_set_keys[OF inv])
  have 5: "length (cache ?c) = Suc (length (cache c))" using ng k by (simp add: lru_set_length[OF inv])
  from Cons.prems call have d: "distinct (calledKeys calls)" by (simp add: calledKeys_def)
  from Cons.prems call 4 have dj: "set (calledKeys calls) \<inter> keysOf ?c = {}"
    by (auto simp: calledKeys_def)
  from Cons.prems(4) 2 5 have le: "int (length (cache ?c) + length calls) \<le> maxSize ?c" by simp
  from Cons.IH[OF 1 d dj le] 2 3 4 5 call show ?case by (auto simp: calledKeys_def)
qed

lemma fresh_overflow:
  assumes n: "0 \<le> n" and d: "distinct (calledKeys calls)" and len: "int (length calls) = n + 1"
  shows "accessOrder (setAll (newLRUCache n ttl0) calls) = tl (calledKeys calls) \<and>
         keysOf (setAll (newLRUCache n ttl0) calls) = set (tl (calledKeys calls))"
proof -
  from len n have ne: "calls \<noteq> []" by auto
  then obtain firsts lastc where calls: "calls = firsts @ [lastc]"
    by (metis append_butlast_last_id)
  obtain now k v ttl' where lastc: "lastc = (now, k, v, ttl')" by (cases lastc) auto
  let ?fresh = "newLRUCache n ttl0"
  let ?c = "setAll ?fresh firsts"
  have c0: "cacheInv ?fresh" "keysOf ?fresh = {}" "cache ?fresh = []" "accessOrder ?fresh = []"
    "maxSize ?fresh = n"
    by (rule new_inv) (simp_all add: keysOf_def newLRUCache_def)
  from d calls lastc have df: "distinct (calledKeys firsts)" and kf: "k \<notin> set (calledKeys firsts)"
    by (auto simp: calledKeys_def)
  from len calls have lf: "int (length firsts) = n" by simp
  have "set (calledKeys firsts) \<inter> keysOf ?fresh = {}"
    and "int (length (cache ?fresh) + length firsts) \<le> maxSize ?fresh"
    using lf by (simp_all add: c0)
  from setAll_fill[OF c0(1) df this] lf
  have inv: "cacheInv ?c" and mx: "maxSize ?c = n" and ord: "accessOrder ?c = calledKeys firsts"
    and keys: "keysOf ?c = set (calledKeys firsts)" and l: "length (cache ?c) = length firsts"
    by (simp_all add: c0)
  from kf keys mx l lf have g: "grows ?c k" by (simp add: grows_def)
  have ck: "calledKeys calls = calledKeys firsts @ [k]"
    by (simp add: calls lastc calledKeys_def)
  have fin: "setAll ?fresh calls = lru_set ?c now k v ttl'"
    by (simp add: calls lastc setAll_append)
  have o: "accessOrder (setAll ?fresh calls) = tl (calledKeys calls)"
    using g by (simp add: fin lru_set_order[OF inv] ord ck)
  from d have "set (calledKeys calls) - {hd (calledKeys calls)} = set (tl (calledKeys calls))"
    by (cases "calledKeys calls") auto
  then have "keysOf (setAll ?fresh calls) = set (tl (calledKeys calls))"
    using g by (simp add: fin lru_set_keys[OF inv] ord ck keys)
  with o show ?thesis by simp
qed

lemma lru_delete_inv: "cacheInv c \<Longrightarrow> cacheInv (snd (lru_delete c k))"
proof -
  assume inv: "cacheInv c"
  have "length (mapDelete (cache c) k) \<le> length (cache c)" by (simp add: mapDelete_def)
  with inv show ?thesis
    by (auto simp: lru_delete_def removeFromAccessOrder_def Let_def cacheInv_def keysOf_def
        keys_mapDelete map_fst_mapDelete)
qed

lemma lru_get_inv: "cacheInv c \<Longrightarrow> cacheInv (snd (lru_get c now k))"
proof (cases "fst (lru_get c now k)")
  case None
  assume "cacheInv c"
  with None lru_delete_inv[of c k] show ?thesis
    by (auto simp: lru_get_def split: option.splits if_splits)
next
  case (Some m)
  assume "cacheInv c"
  from lru_get_hit_inv[OF this, of now k m "snd (lru_get c now k)"] Some show ?thesis
    by (metis prod.collapse)
qed

lemma lru_has_inv: "cacheInv c \<Longrightarrow> cacheInv (snd (lru_has c now k))"
  using lru_delete_inv[of c k] by (auto simp: lru_has_def split: option.splits)

lemma lru_clear_inv: "cacheInv c \<Longrightarrow> cacheInv (lru_clear c)"
  by (simp add: lru_clear_def cacheInv_def keysOf_def)

text \<open>
  C4 as stated fails for the capacity 1: the key that a \<^verbatim>\<open>get\<close> has just touched is also
  the front of the recency order, and the next \<^verbatim>\<open>set\<close> of another key evicts it.
\<close>

theorem lru_protect_counterexample:
  "fst (lru_get (lru_set (newLRUCache 1 1000) 0 ''a'' \<lparr>key = ''a'', pvalue = PNumber 1, priority = 50, source = ''memory'', timestamp = 0,
        encrypted = None, validated = None, ttl = None\<rparr> None) 1 ''a'') = Some \<lparr>key = ''a'', pvalue = PNumber 1, priority = 50, source = ''memory'', timestamp = 0,
        encrypted = None, validated = None, ttl = None\<rparr> \<and>
   accessOrder (lru_set (snd (lru_get (lru_set (newLRUCache 1 1000) 0 ''a'' \<lparr>key = ''a'', pvalue = PNumber 1, priority = 50, source = ''memory'', timestamp = 0,
        encrypted = None, validated = None, ttl = None\<rparr> None) 1 ''a'')) 2 ''b'' \<lparr>key = ''b'', pvalue = PNumber 2, priority = 50, source = ''memory'', timestamp = 0,
        encrypted = None, validated = None, ttl = None\<rparr> None) = [''b''] \<and>
   map fst (cache (lru_set (snd (lru_get (lru_set (newLRUCache 1 1000) 0 ''a'' \<lparr>key = ''a'', pvalue = PNumber 1, priority = 50, source = ''memory'', timestamp = 0,
        encrypted = None, validated = None, ttl = None\<rparr> None) 1 ''a'')) 2 ''b'' \<lparr>key = ''b'', pvalue = PNumber 2, priority = 50, source = ''memory'', timestamp = 0,
        encrypted = None, validated = None, ttl = None\<rparr> None)) = [''b'']"
  by (simp add: lru_set_def lru_get_def newLRUCache_def Let_def mapHas_def orDefault_def
      evictOldest_def lru_delete_def removeFromAccessOrder_def updateAccessOrder_def mapDelete_def)

text \<open>
  C4, amended. On a cache that satisfies the invariant, \<^verbatim>\<open>set\<close> moves or appends its key to
  the end of the recency order and evicts at most one key: the front of that order, exactly
  when the key is new and the cache was full. A \<^verbatim>\<open>get\<close> that hits leaves the map as it is
  and moves the key to the end of the recency order; when the capacity is at least 2, no
  following \<^verbatim>\<open>set\<close> evicts that key. On a new cache of capacity \<open>n\<close>, \<open>n + 1\<close> calls of
  \<^verbatim>\<open>set\<close> with distinct keys leave all the keys but the first, in the order of the calls.
\<close>

theorem lru_eviction:
  assumes "cacheInv c"
  shows "accessOrder (lru_set c now k v ttl') =
           (if k \<notin> keysOf c \<and> maxSize c \<le> int (length (cache c))
            then tl (accessOrder c @ [k]) else remove1 k (accessOrder c) @ [k]) \<and>
         keysOf (lru_set c now k v ttl') =
           (if k \<notin> keysOf c \<and> maxSize c \<le> int (length (cache c))
            then insert k (keysOf c) - {hd (accessOrder c @ [k])} else insert k (keysOf c)) \<and>
         cacheInv (lru_set c now k v ttl') \<and>
         (\<forall>m c'. lru_get c now k = (Some m, c') \<longrightarrow>
            cache c' = cache c \<and> accessOrder c' = remove1 k (accessOrder c) @ [k] \<and>
            cacheInv c' \<and>
            (2 \<le> maxSize c \<longrightarrow> (\<forall>now' k' v' ttl''. k \<in> keysOf (lru_set c' now' k' v' ttl'')))) \<and>
         (\<forall>n ttl0 calls. 0 \<le> n \<and> distinct (calledKeys calls) \<and> int (length calls) = n + 1 \<longrightarrow>
            accessOrder (setAll (newLRUCache n ttl0) calls) = tl (calledKeys calls) \<and>
            keysOf (setAll (newLRUCache n ttl0) calls) = set (tl (calledKeys calls)))"
proof -
  have hit: "cache c' = cache c \<and> accessOrder c' = remove1 k (accessOrder c) @ [k] \<and>
            cacheInv c' \<and>
            (2 \<le> maxSize c \<longrightarrow> (\<forall>now' k' v' ttl''. k \<in> keysOf (lru_set c' now' k' v' ttl'')))"
    if h: "lru_get c now k = (Some m, c')" for m c'
    using lru_get_hit(1)[OF h] lru_get_hit_inv[OF assms h] protected_after_hit[OF assms h]
    by simp
  from lru_set_order[OF assms, of now k v ttl'] lru_set_keys[OF assms, of now k v ttl']
    lru_set_inv[OF assms, of now k v ttl'] hit fresh_overflow
  show ?thesis unfolding grows_def by blast
qed

text \<open>
  A full cache of capacity 2 in which \<^verbatim>\<open>a\<close> was touched after \<^verbatim>\<open>b\<close>: setting \<^verbatim>\<open>c\<close> evicts
  \<^verbatim>\<open>b\<close>.
\<close>

theorem lru_eviction_witness:
  "cacheInv \<lparr>cache = [(''a'', \<lparr>cached = \<lparr>key = ''a'', pvalue = PNumber 1, priority = 50, source = ''memory'', timestamp = 0,
        encrypted = None, validated = None, ttl = None\<rparr>, expiresAt = 1000\<rparr>),
                (''b'', \<lparr>cached = \<lparr>key = ''b'', pvalue = PNumber 2, priority = 50, source = ''memory'', timestamp = 0,
        encrypted = None, validated = None, ttl = None\<rparr>, expiresAt = 1001\<rparr>)],
       accessOrder = [''b'', ''a''], maxSize = 2, defaultTTL = 1000\<rparr> \<and>
   accessOrder (lru_set \<lparr>cache = [(''a'', \<lparr>cached = \<lparr>key = ''a'', pvalue = PNumber 1, priority = 50, source = ''memory'', timestamp = 0,
        encrypted = None, validated = None, ttl = None\<rparr>, expiresAt = 1000\<rparr>),
                (''b'', \<lparr>cached = \<lparr>key = ''b'', pvalue = PNumber 2, priority = 50, source = ''memory'', timestamp = 0,
        encrypted = None, validated = None, ttl = None\<rparr>, expiresAt = 1001\<rparr>)],
       accessOrder = [''b'', ''a''], maxSize = 2, defaultTTL = 1000\<rparr> 5 ''c'' \<lparr>key = ''c'', pvalue = PNumber 3, priority = 50, source = ''memory'', timestamp = 0,
        encrypted = None, validated = None, ttl = None\<rparr> None) = [''a'', ''c''] \<and>
   keysOf (lru_set \<lparr>cache = [(''a'', \<lparr>cached = \<lparr>key = ''a'', pvalue = PNumber 1, priority = 50, source = ''memory'', timestamp = 0,
        encrypted = None, validated = None, ttl = None\<rparr>, expiresAt = 1000\<rparr>),
                (''b'', \<lparr>cached = \<lparr>key = ''b'', pvalue = PNumber 2, priority = 50, source = ''memory'', timestamp = 0,
        encrypted = None, validated = None, ttl = None\<rparr>, expiresAt = 1001\<rparr>)],
       accessOrder = [''b'', ''a''], maxSize = 2, defaultTTL = 1000\<rparr> 5 ''c'' \<lparr>key = ''c'', pvalue = PNumber 3, priority = 50, source = ''memory'', timestamp = 0,
        encrypted = None, validated = None, ttl = None\<rparr> None) = {''a'', ''c''}"
proof -
  let ?c = "\<lparr>cache = [(''a'', \<lparr>cached = \<lparr>key = ''a'', pvalue = PNumber 1, priority = 50, source = ''memory'', timestamp = 0,
        encrypted = None, validated = None, ttl = None\<rparr>, expiresAt = 1000\<rparr>),
                (''b'', \<lparr>cached = \<lparr>key = ''b'', pvalue = PNumber 2, priority = 50, source = ''memory'', timestamp = 0,
        encrypted = None, validated = None, ttl = None\<rparr>, expiresAt = 1001\<rparr>)],
       accessOrder = [''b'', ''a''], maxSize = 2, defaultTTL = 1000\<rparr>"
  have inv: "cacheInv ?c" by (auto simp: cacheInv_def keysOf_def)
  from lru_eviction[OF inv, of 5 "''c''" "\<lparr>key = ''c'', pvalue = PNumber 3, priority = 50, source = ''memory'', timestamp = 0,
        encrypted = None, validated = None, ttl = None\<rparr>" None]
  have "accessOrder (lru_set ?c 5 ''c'' \<lparr>key = ''c'', pvalue = PNumber 3, priority = 50, source = ''memory'', timestamp = 0,
        encrypted = None, validated = None, ttl = None\<rparr> None) =
           (if ''c'' \<notin> keysOf ?c \<and> maxSize ?c \<le> int (length (cache ?c))
            then tl (accessOrder ?c @ [''c'']) else remove1 ''c'' (accessOrder ?c) @ [''c''])"
    and "keysOf (lru_set ?c 5 ''c'' \<lparr>key = ''c'', pvalue = PNumber 3, priority = 50, source = ''memory'', timestamp = 0,
        encrypted = None, validated = None, ttl = None\<rparr> None) =
           (if ''c'' \<notin> keysOf ?c \<and> maxSize ?c \<le> int (length (cache ?c))
            then insert ''c'' (keysOf ?c) - {hd (accessOrder ?c @ [''c''])} else insert ''c'' (keysOf ?c))"
    by blast+
  then show ?thesis using inv by (simp add: keysOf_def insert_commute)
qed

section \<open>Collaborators of the injector\<close>

subsection \<open>Cache\<close>

text \<open>
  The injector holds an \<^verbatim>\<open>LRUCache\<close> when caching is enabled and a \<^verbatim>\<open>NoOpCache\<close>
  otherwise. \<^verbatim>\<open>NoOpCache\<close> always misses and ignores writes.
\<close>

datatype Cache = LRU LRUCache | NoOp

fun cache_get :: "Cache \<Rightarrow> int \<Rightarrow> string \<Rightarrow> PreferenceMetadata option \<times> Cache" where
  "cache_get (LRU c) now k = (case lru_get c now k of (r, c') \<Rightarrow> (r, LRU c'))"
| "cache_get NoOp now k = (None, NoOp)"

fun cache_set :: "Cache \<Rightarrow> int \<Rightarrow> string \<Rightarrow> PreferenceMetadata \<Rightarrow> int option \<Rightarrow> Cache" where
  "cache_set (LRU c) now k v ttl' = LRU (lru_set c now k v ttl')"
| "cache_set NoOp now k v ttl' = NoOp"

fun cache_delete :: "Cache \<Rightarrow> string \<Rightarrow> bool \<times> Cache" where
  "cache_delete (LRU c) k = (case lru_delete c k of (r, c') \<Rightarrow> (r, LRU c'))"
| "cache_delete NoOp k = (False, NoOp)"

subsection \<open>Validator (src/utils/validator)\<close>

text \<open>
  A \<^verbatim>\<open>ValidationRule\<close>: its \<^verbatim>\<open>validate\<close> returns a boolean or throws (\<open>Inl\<close>, with the
  message of the exception). \<^verbatim>\<open>PreferenceValidator\<close> keeps a \<^verbatim>\<open>Map\<close> from key to rules;
  \<^verbatim>\<open>validate\<close> runs the rules of the key in order, turning a rule that fails or throws into
  one error, and never throws itself.
\<close>

record ValidationRule =
  ruleName :: string
  ruleValidate :: "PreferenceValue \<Rightarrow> string + bool"
  ruleMessage :: "string option"

record ValidationResult =
  valid :: bool
  errors :: "ValidationError list"

record PreferenceValidator =
  rules :: "(string \<times> ValidationRule list) list"

definition addRule :: "PreferenceValidator \<Rightarrow> string \<Rightarrow> ValidationRule \<Rightarrow> PreferenceValidator" where
  "addRule vd k r =
     (let existingRules = (case map_of (rules vd) k of Some rs \<Rightarrow> rs | None \<Rightarrow> [])
      in vd\<lparr>rules := mapSet (rules vd) k (existingRules @ [r])\<rparr>)"

text \<open>
  The body of the loop over the rules. \<^verbatim>\<open>rule.message || ...\<close>: an absent or empty message
  gives the default text.
\<close>

definition checkRule :: "ValidationRule \<Rightarrow> PreferenceValue \<Rightarrow> ValidationError list" where
  "checkRule r v =
     (case ruleValidate r v of
        Inr isValid \<Rightarrow>
          if \<not> isValid
          then [\<lparr>rule = ruleName r,
                 message = (case ruleMessage r of
                              None \<Rightarrow> ''Validation failed for rule: '' @ ruleName r
                            | Some m \<Rightarrow> if m = [] then ''Validation failed for rule: '' @ ruleName r
                                        else m),
                 rejected = v\<rparr>]
          else []
      | Inl thrown \<Rightarrow>
          [\<lparr>rule = ruleName r, message = ''Validation error: '' @ thrown, rejected = v\<rparr>])"

definition validate :: "PreferenceValidator \<Rightarrow> string \<Rightarrow> PreferenceValue \<Rightarrow> ValidationResult" where
  "validate vd k v =
     (case map_of (rules vd) k of
        None \<Rightarrow> \<lparr>valid = True, errors = []\<rparr>
      | Some rs \<Rightarrow>
          if length rs = 0 then \<lparr>valid = True, errors = []\<rparr>
          else (let errs = concat (map (\<lambda>r. checkRule r v) rs)
                in \<lparr>valid = (length errs = 0), errors = errs\<rparr>))"

subsection \<open>Audit logger (src/utils/audit)\<close>

text \<open>
  The entries the injector writes carry a timestamp, an action, a key, a provider label and,
  depending on the action, a value and an old value. The injector builds its
  \<^verbatim>\<open>InMemoryAuditLogger\<close> with the default \<^verbatim>\<open>maxEntries\<close> of 10000: \<^verbatim>\<open>log\<close> pushes the entry
  and keeps the last \<^verbatim>\<open>maxEntries\<close> entries. \<^verbatim>\<open>NoOpAuditLogger\<close> keeps nothing.
\<close>

datatype AuditAction = GET | SET | DELETE | CLEAR | VALIDATE | ENCRYPT | DECRYPT

record AuditLogEntry =
  logTimestamp :: int
  action :: AuditAction
  logKey :: string
  logValue :: "PreferenceValue option"
  logOldValue :: "PreferenceValue option"
  logProvider :: string

datatype AuditLogger = InMemoryAuditLogger "AuditLogEntry list" | NoOpAuditLogger

definition maxEntries :: nat where
  "maxEntries = 10000"

fun log :: "AuditLogger \<Rightarrow> AuditLogEntry \<Rightarrow> AuditLogger" where
  "log (InMemoryAuditLogger entries) e =
     (let pushed = entries @ [e]
      in InMemoryAuditLogger
           (if length pushed > maxEntries then drop (length pushed - maxEntries) pushed
            else pushed))"
| "log NoOpAuditLogger e = NoOpAuditLogger"

fun getEntries :: "AuditLogger \<Rightarrow> AuditLogEntry list" where
  "getEntries (InMemoryAuditLogger entries) = entries"
| "getEntries NoOpAuditLogger = []"

subsection \<open>Encryption service (src/utils/encryption)\<close>

text \<open>
  The contract of an \<^verbatim>\<open>EncryptionService\<close>; \<^verbatim>\<open>encrypt\<close> and \<^verbatim>\<open>decrypt\<close> may reject.
\<close>

record EncryptionService =
  encrypt :: "string \<Rightarrow> error + string"
  decrypt :: "string \<Rightarrow> error + string"
  isEncrypted :: "string \<Rightarrow> bool"

definition NoOpEncryptionService :: EncryptionService where
  "NoOpEncryptionService = \<lparr>encrypt = Inr, decrypt = Inr, isEncrypted = (\<lambda>_. False)\<rparr>"

subsection \<open>Options, events, providers\<close>

text \<open>
  \<^verbatim>\<open>GetOptions\<close> and \<^verbatim>\<open>SetOptions\<close>: every field is optional (\<open>None\<close> is \<^verbatim>\<open>undefined\<close>); the
  options object itself is optional too. The fields \<^verbatim>\<open>decrypt\<close>, \<^verbatim>\<open>priority\<close>, \<^verbatim>\<open>ttl\<close>,
  \<^verbatim>\<open>encrypt\<close> and \<^verbatim>\<open>validate\<close> carry the prefix \<open>opt\<close>.
\<close>

record GetOptions =
  defaultValue :: "PreferenceValue option"
  optDecrypt :: "bool option"
  useCache :: "bool option"

record SetOptions =
  optPriority :: "int option"
  optTtl :: "int option"
  optEncrypt :: "bool option"
  optValidate :: "bool option"

datatype PreferenceEvent = CHANGED | ADDED | REMOVED | CLEARED

record PreferenceChangeEvent =
  eventType :: PreferenceEvent
  eventKey :: string
  newValue :: "PreferenceValue option"
  oldValue :: "PreferenceValue option"
  eventProvider :: string
  eventTimestamp :: int

text \<open>
  A \<^verbatim>\<open>PreferenceProvider\<close> is an object with state of its own. Each of its async methods is
  a function from that state to the outcome of the promise (\<open>Inl\<close>: it rejects) and the
  state afterwards. Only the methods the modelled operations call are kept.
\<close>

record 's PreferenceProvider =
  p_name :: string
  p_priority :: int
  p_state :: 's
  p_initialize :: "'s \<Rightarrow> (error + unit) \<times> 's"
  p_get :: "'s \<Rightarrow> string \<Rightarrow> (error + PreferenceMetadata option) \<times> 's"
  p_set :: "'s \<Rightarrow> string \<Rightarrow> PreferenceValue \<Rightarrow> SetOptions option \<Rightarrow> (error + unit) \<times> 's"
  p_delete :: "'s \<Rightarrow> string \<Rightarrow> (error + bool) \<times> 's"

section \<open>PreferenceInjector (src/core/injector.ts)\<close>

text \<open>
  The fields of the class. The listeners of \<^verbatim>\<open>eventListeners\<close> are callbacks outside the
  model, and \<^verbatim>\<open>emitEvent\<close> catches what they throw: \<open>emitted\<close> records the events handed to
  \<^verbatim>\<open>emitEvent\<close>, in order. Likewise \<open>logged\<close> records the entries handed to
  \<^verbatim>\<open>auditLogger.log\<close>, whatever the logger keeps of them. Every operation takes the clock
  reading \<open>now\<close> used for \<^verbatim>\<open>new Date()\<close> and \<^verbatim>\<open>Date.now()\<close>, and returns the outcome of
  its promise (\<open>Inl\<close>: it rejects) next to the state of the injector. The methods
  \<^verbatim>\<open>initialize\<close>, \<^verbatim>\<open>get\<close>, \<^verbatim>\<open>set\<close> and \<^verbatim>\<open>delete\<close> carry the prefix \<open>inj_\<close>.
\<close>

record 's PreferenceInjector =
  providers :: "'s PreferenceProvider list"
  conflictResolution :: ConflictResolution
  injCache :: Cache
  validator :: PreferenceValidator
  auditLogger :: AuditLogger
  encryptionService :: EncryptionService
  initialized :: bool
  logged :: "AuditLogEntry list"
  emitted :: "PreferenceChangeEvent list"

record 's InjectorConfig =
  cfgProviders :: "'s PreferenceProvider list option"
  cfgConflictResolution :: "ConflictResolution option"
  enableCache :: "bool option"
  cacheTTL :: "int option"
  enableValidation :: "bool option"
  enableEncryption :: "bool option"
  enableAudit :: "bool option"
  encryptionKey :: "string option"

text \<open>
  The constructor. \<^verbatim>\<open>config?.x ? a : b\<close> tests the truthiness of an optional boolean;
  \<^verbatim>\<open>config?.conflictResolution || HIGHEST_PRIORITY\<close> also replaces the empty string.
\<close>

definition newPreferenceValidator :: PreferenceValidator where
  "newPreferenceValidator = \<lparr>rules = []\<rparr>"

definition truthy :: "bool option \<Rightarrow> bool" where
  "truthy b = (b = Some True)"

definition constructor :: "'s InjectorConfig option \<Rightarrow> 's PreferenceInjector" where
  "constructor config =
     \<lparr>providers = (case Option.bind config cfgProviders of Some ps \<Rightarrow> ps | None \<Rightarrow> []),
      conflictResolution =
        (case Option.bind config cfgConflictResolution of
           None \<Rightarrow> HIGHEST_PRIORITY
         | Some (UNRECOGNIZED []) \<Rightarrow> HIGHEST_PRIORITY
         | Some strategy \<Rightarrow> strategy),
      injCache =
        (if truthy (Option.bind config enableCache)
         then LRU (newLRUCache 1000 (orDefault (Option.bind config cacheTTL) 3600000))
         else NoOp),
      validator =
        (if truthy (Option.bind config enableValidation) then newPreferenceValidator
         else newPreferenceValidator),
      auditLogger =
        (if truthy (Option.bind config enableAudit) then InMemoryAuditLogger []
         else NoOpAuditLogger),
      encryptionService = NoOpEncryptionService,
      initialized = False,
      logged = [],
      emitted = []\<rparr>"

definition logAudit :: "'s PreferenceInjector \<Rightarrow> AuditLogEntry \<Rightarrow> 's PreferenceInjector" where
  "logAudit s e = s\<lparr>auditLogger := log (auditLogger s) e, logged := logged s @ [e]\<rparr>"

definition emitEvent :: "'s PreferenceInjector \<Rightarrow> PreferenceChangeEvent \<Rightarrow> 's PreferenceInjector" where
  "emitEvent s ev = s\<lparr>emitted := emitted s @ [ev]\<rparr>"

subsection \<open>initialize\<close>

text \<open>
  \<^verbatim>\<open>Promise.all(this.providers.map((provider) => provider.initialize()))\<close> starts every
  provider's \<^verbatim>\<open>initialize\<close> and rejects as soon as one of them rejects; \<open>initializeAll\<close> runs
  them all and lists the rejections in provider order. Which rejection \<^verbatim>\<open>Promise.all\<close>
  reports depends on timing; the model reports the first in provider order.
\<close>

fun initializeAll :: "'s PreferenceProvider list \<Rightarrow> error list \<times> 's PreferenceProvider list" where
  "initializeAll [] = ([], [])"
| "initializeAll (p # ps) =
     (case p_initialize p (p_state p) of
        (r, st) \<Rightarrow>
          (case initializeAll ps of
             (rejections, ps') \<Rightarrow>
               ((case r of Inl e \<Rightarrow> [e] | Inr _ \<Rightarrow> []) @ rejections, p\<lparr>p_state := st\<rparr> # ps')))"

definition inj_initialize :: "'s PreferenceInjector \<Rightarrow> (error + unit) \<times> 's PreferenceInjector" where
  "inj_initialize s =
     (if initialized s then (Inr (), s)
      else
        (case initializeAll (providers s) of
           (rejections, ps) \<Rightarrow>
             (case rejections of
                e # _ \<Rightarrow> (Inl e, s\<lparr>providers := ps\<rparr>)
              | [] \<Rightarrow> (Inr (), s\<lparr>providers := ps, initialized := True\<rparr>))))"

subsection \<open>get\<close>

text \<open>
  \<open>gather\<close> is the loop over the providers: it stops at the first provider whose \<^verbatim>\<open>get\<close>
  rejects and collects the metadata that are not \<^verbatim>\<open>null\<close>. \<open>getFromProviders\<close> is the part
  of \<^verbatim>\<open>get\<close> after the cache lookup, \<open>decryptIfNeeded\<close> the block under
  \<^verbatim>\<open>// Decrypt if needed\<close>.
\<close>

fun gather ::
  "'s PreferenceProvider list \<Rightarrow> string \<Rightarrow>
     (error + PreferenceMetadata list) \<times> 's PreferenceProvider list"
where
  "gather [] k = (Inr [], [])"
| "gather (p # ps) k =
     (case p_get p (p_state p) k of
        (Inl e, st) \<Rightarrow> (Inl e, p\<lparr>p_state := st\<rparr> # ps)
      | (Inr metadata, st) \<Rightarrow>
          (case gather ps k of
             (Inl e, ps') \<Rightarrow> (Inl e, p\<lparr>p_state := st\<rparr> # ps')
           | (Inr results, ps') \<Rightarrow>
               (Inr ((case metadata of Some m \<Rightarrow> [m] | None \<Rightarrow> []) @ results),
                p\<lparr>p_state := st\<rparr> # ps')))"

definition usesCache :: "GetOptions option \<Rightarrow> bool" where
  "usesCache options = (Option.bind options useCache \<noteq> Some False)"

definition decryptIfNeeded ::
  "'s PreferenceInjector \<Rightarrow> int \<Rightarrow> string \<Rightarrow> GetOptions option \<Rightarrow> PreferenceMetadata \<Rightarrow>
     error + PreferenceValue \<times> 's PreferenceInjector"
where
  "decryptIfNeeded s now k options resolved =
     (case pvalue resolved of
        PString str \<Rightarrow>
          if truthy (Option.bind options optDecrypt) \<and> isEncrypted (encryptionService s) str
          then (case decrypt (encryptionService s) str of
                  Inl e \<Rightarrow> Inl e
                | Inr decrypted \<Rightarrow>
                    Inr (PString decrypted,
                         logAudit s \<lparr>logTimestamp = now, action = DECRYPT, logKey = k,
                                     logValue = None, logOldValue = None,
                                     logProvider = source resolved\<rparr>))
          else Inr (pvalue resolved, s)
      | _ \<Rightarrow> Inr (pvalue resolved, s))"

definition getFromProviders ::
  "'s PreferenceInjector \<Rightarrow> int \<Rightarrow> string \<Rightarrow> GetOptions option \<Rightarrow>
     (error + PreferenceValue) \<times> 's PreferenceInjector"
where
  "getFromProviders s now k options =
     (case gather (providers s) k of
        (Inl e, ps) \<Rightarrow> (Inl e, s\<lparr>providers := ps\<rparr>)
      | (Inr results, ps) \<Rightarrow>
          (let s1 = s\<lparr>providers := ps\<rparr> in
           if length results = 0 then
             (case Option.bind options defaultValue of
                Some d \<Rightarrow> (Inr d, s1)
              | None \<Rightarrow> (Inl (PreferenceNotFoundError k), s1))
           else
             (case resolve results (conflictResolution s1) of
                Inl e \<Rightarrow> (Inl e, s1)
              | Inr resolved \<Rightarrow>
                  (case decryptIfNeeded s1 now k options resolved of
                     Inl e \<Rightarrow> (Inl e, s1)
                   | Inr (v, s2) \<Rightarrow>
                       (let s3 = (if usesCache options
                                  then s2\<lparr>injCache := cache_set (injCache s2) now k
                                                         (resolved\<lparr>pvalue := v\<rparr>) (ttl resolved)\<rparr>
                                  else s2);
                            s4 = logAudit s3 \<lparr>logTimestamp = now, action = GET, logKey = k,
                                              logValue = Some v, logOldValue = None,
                                              logProvider = source resolved\<rparr>
                        in (Inr v, s4))))))"

definition inj_get ::
  "'s PreferenceInjector \<Rightarrow> int \<Rightarrow> string \<Rightarrow> GetOptions option \<Rightarrow>
     (error + PreferenceValue) \<times> 's PreferenceInjector"
where
  "inj_get s now k options =
     (if usesCache options then
        (case cache_get (injCache s) now k of
           (Some hit, c) \<Rightarrow>
             (Inr (pvalue hit),
              logAudit (s\<lparr>injCache := c\<rparr>)
                \<lparr>logTimestamp = now, action = GET, logKey = k, logValue = Some (pvalue hit),
                 logOldValue = None, logProvider = ''cache''\<rparr>)
         | (None, c) \<Rightarrow> getFromProviders (s\<lparr>injCache := c\<rparr>) now k options)
      else getFromProviders s now k options)"

subsection \<open>set\<close>

text \<open>
  \<open>readOldValue\<close> is \<^verbatim>\<open>await this.get(key, { useCache: false }).catch(() => undefined)\<close>,
  shared by \<^verbatim>\<open>set\<close> and \<^verbatim>\<open>delete\<close>. \<open>setWithOld\<close> is the rest of \<^verbatim>\<open>set\<close>: the validation
  block, then \<open>writeAndReport\<close>: encryption, the writes to every provider, the cache
  invalidation, the SET entry and the event.
\<close>

fun setInProviders ::
  "'s PreferenceProvider list \<Rightarrow> string \<Rightarrow> PreferenceValue \<Rightarrow> SetOptions option \<Rightarrow>
     (error + unit) \<times> 's PreferenceProvider list"
where
  "setInProviders [] k v options = (Inr (), [])"
| "setInProviders (p # ps) k v options =
     (case p_set p (p_state p) k v options of
        (Inl e, st) \<Rightarrow> (Inl e, p\<lparr>p_state := st\<rparr> # ps)
      | (Inr _, st) \<Rightarrow>
          (case setInProviders ps k v options of
             (r, ps') \<Rightarrow> (r, p\<lparr>p_state := st\<rparr> # ps')))"

definition readOldValue ::
  "'s PreferenceInjector \<Rightarrow> int \<Rightarrow> string \<Rightarrow> PreferenceValue option \<times> 's PreferenceInjector"
where
  "readOldValue s now k =
     (case inj_get s now k (Some \<lparr>defaultValue = None, optDecrypt = None, useCache = Some False\<rparr>) of
        (Inl _, s1) \<Rightarrow> (None, s1)
      | (Inr v, s1) \<Rightarrow> (Some v, s1))"

definition validates :: "SetOptions option \<Rightarrow> bool" where
  "validates options = (Option.bind options optValidate \<noteq> Some False)"

definition encryptIfNeeded ::
  "'s PreferenceInjector \<Rightarrow> int \<Rightarrow> string \<Rightarrow> PreferenceValue \<Rightarrow> SetOptions option \<Rightarrow>
     error + PreferenceValue \<times> 's PreferenceInjector"
where
  "encryptIfNeeded s now k v options =
     (case v of
        PString str \<Rightarrow>
          if truthy (Option.bind options optEncrypt)
          then (case encrypt (encryptionService s) str of
                  Inl e \<Rightarrow> Inl e
                | Inr secret \<Rightarrow>
                    Inr (PString secret,
                         logAudit s \<lparr>logTimestamp = now, action = ENCRYPT, logKey = k,
                                     logValue = None, logOldValue = None,
                                     logProvider = ''encryption''\<rparr>))
          else Inr (v, s)
      | _ \<Rightarrow> Inr (v, s))"

definition writeAndReport ::
  "'s PreferenceInjector \<Rightarrow> int \<Rightarrow> string \<Rightarrow> PreferenceValue \<Rightarrow> SetOptions option \<Rightarrow>
     PreferenceValue option \<Rightarrow> (error + unit) \<times> 's PreferenceInjector"
where
  "writeAndReport s now k v options old =
     (case encryptIfNeeded s now k v options of
        Inl e \<Rightarrow> (Inl e, s)
      | Inr (finalValue, s1) \<Rightarrow>
          (case setInProviders (providers s1) k finalValue options of
             (Inl e, ps) \<Rightarrow> (Inl e, s1\<lparr>providers := ps\<rparr>)
           | (Inr _, ps) \<Rightarrow>
               (let s2 = s1\<lparr>providers := ps\<rparr>;
                    s3 = s2\<lparr>injCache := snd (cache_delete (injCache s2) k)\<rparr>;
                    s4 = logAudit s3 \<lparr>logTimestamp = now, action = SET, logKey = k,
                                      logValue = Some finalValue, logOldValue = old,
                                      logProvider = ''injector''\<rparr>;
                    s5 = emitEvent s4 \<lparr>eventType = (if old = None then ADDED else CHANGED),
                                       eventKey = k, newValue = Some v, oldValue = old,
                                       eventProvider = ''injector'', eventTimestamp = now\<rparr>
                in (Inr (), s5))))"

definition setWithOld ::
  "'s PreferenceInjector \<Rightarrow> int \<Rightarrow> string \<Rightarrow> PreferenceValue \<Rightarrow> SetOptions option \<Rightarrow>
     PreferenceValue option \<Rightarrow> (error + unit) \<times> 's PreferenceInjector"
where
  "setWithOld s now k v options old =
     (if validates options then
        (let validationResult = validate (validator s) k v in
         if \<not> valid validationResult
         then (Inl (ValidationFailed (errors validationResult)), s)
         else writeAndReport
                (logAudit s \<lparr>logTimestamp = now, action = VALIDATE, logKey = k,
                             logValue = Some v, logOldValue = None,
                             logProvider = ''validator''\<rparr>)
                now k v options old)
      else writeAndReport s now k v options old)"

definition inj_set ::
  "'s PreferenceInjector \<Rightarrow> int \<Rightarrow> string \<Rightarrow> PreferenceValue \<Rightarrow> SetOptions option \<Rightarrow>
     (error + unit) \<times> 's PreferenceInjector"
where
  "inj_set s now k v options =
     (case readOldValue s now k of (old, s1) \<Rightarrow> setWithOld s1 now k v options old)"

subsection \<open>delete\<close>

fun deleteInProviders ::
  "'s PreferenceProvider list \<Rightarrow> string \<Rightarrow> (error + bool) \<times> 's PreferenceProvider list"
where
  "deleteInProviders [] k = (Inr False, [])"
| "deleteInProviders (p # ps) k =
     (case p_delete p (p_state p) k of
        (Inl e, st) \<Rightarrow> (Inl e, p\<lparr>p_state := st\<rparr> # ps)
      | (Inr result, st) \<Rightarrow>
          (case deleteInProviders ps k of
             (Inl e, ps') \<Rightarrow> (Inl e, p\<lparr>p_state := st\<rparr> # ps')
           | (Inr deleted, ps') \<Rightarrow> (Inr (result \<or> deleted), p\<lparr>p_state := st\<rparr> # ps')))"

definition inj_delete ::
  "'s PreferenceInjector \<Rightarrow> int \<Rightarrow> string \<Rightarrow> (error + bool) \<times> 's PreferenceInjector"
where
  "inj_delete s now k =
     (case readOldValue s now k of
        (old, s1) \<Rightarrow>
          (case deleteInProviders (providers s1) k of
             (Inl e, ps) \<Rightarrow> (Inl e, s1\<lparr>providers := ps\<rparr>)
           | (Inr deleted, ps) \<Rightarrow>
               (let s2 = s1\<lparr>providers := ps\<rparr> in
                if deleted then
                  (let s3 = s2\<lparr>injCache := snd (cache_delete (injCache s2) k)\<rparr>;
                       s4 = logAudit s3 \<lparr>logTimestamp = now, action = DELETE, logKey = k,
                                         logValue = None, logOldValue = old,
                                         logProvider = ''injector''\<rparr>;
                       s5 = emitEvent s4 \<lparr>eventType = REMOVED, eventKey = k, newValue = None,
                                          oldValue = old, eventProvider = ''injector'',
                                          eventTimestamp = now\<rparr>
                   in (Inr True, s5))
                else (Inr False, s2))))"

text \<open>\<^verbatim>\<open>injector.getValidator().addRule(key, rule)\<close>\<close>

definition inj_addRule :: "'s PreferenceInjector \<Rightarrow> string \<Rightarrow> ValidationRule \<Rightarrow> 's PreferenceInjector" where
  "inj_addRule s k r = s\<lparr>validator := addRule (validator s) k r\<rparr>"

section \<open>MemoryProvider (src/providers/memory-provider.ts)\<close>

text \<open>
  The in-memory provider, used in the examples below. Its state is its \<^verbatim>\<open>Map\<close> of
  preferences; the clock it reads in \<^verbatim>\<open>set\<close> is the parameter \<open>clock\<close>.
  \<^verbatim>\<open>options?.priority || this.priority\<close> replaces an absent priority and the priority 0.
\<close>

definition memoryProvider ::
  "int \<Rightarrow> int \<Rightarrow> (string \<times> PreferenceMetadata) list \<Rightarrow> (string \<times> PreferenceMetadata) list PreferenceProvider"
where
  "memoryProvider prio clock preferences =
     \<lparr>p_name = ''memory'', p_priority = prio, p_state = preferences,
      p_initialize = (\<lambda>st. (Inr (), st)),
      p_get = (\<lambda>st k. (Inr (map_of st k), st)),
      p_set = (\<lambda>st k v options.
        (Inr (),
         mapSet st k
           \<lparr>key = k, pvalue = v,
            priority = (case Option.bind options optPriority of
                          None \<Rightarrow> prio | Some p \<Rightarrow> if p = 0 then prio else p),
            source = ''memory'', timestamp = clock,
            encrypted = Option.bind options optEncrypt,
            validated = Option.bind options optValidate,
            ttl = Option.bind options optTtl\<rparr>)),
      p_delete = (\<lambda>st k. (Inr (mapHas st k), mapDelete st k))\<rparr>"

section \<open>Properties of the injector\<close>

subsection \<open>What a read leaves alone\<close>

lemma logAudit_frame [simp]:
  "providers (logAudit s e) = providers s" "conflictResolution (logAudit s e) = conflictResolution s"
  "injCache (logAudit s e) = injCache s" "validator (logAudit s e) = validator s"
  "encryptionService (logAudit s e) = encryptionService s" "initialized (logAudit s e) = initialized s"
  "emitted (logAudit s e) = emitted s" "logged (logAudit s e) = logged s @ [e]"
  by (simp_all add: logAudit_def)

lemma emitEvent_frame [simp]:
  "providers (emitEvent s e) = providers s" "conflictResolution (emitEvent s e) = conflictResolution s"
  "injCache (emitEvent s e) = injCache s" "validator (emitEvent s e) = validator s"
  "encryptionService (emitEvent s e) = encryptionService s" "initialized (emitEvent s e) = initialized s"
  "emitted (emitEvent s e) = emitted s @ [e]" "logged (emitEvent s e) = logged s"
  "auditLogger (emitEvent s e) = auditLogger s"
  by (simp_all add: emitEvent_def)

text \<open>
  \<open>quiet s s'\<close>: from \<open>s\<close> to \<open>s'\<close> the validator, the events, the flag, the strategy and
  the encryption service are unchanged, and only GET and DECRYPT entries were logged.
\<close>

definition quiet :: "'s PreferenceInjector \<Rightarrow> 's PreferenceInjector \<Rightarrow> bool" where
  "quiet s s' \<longleftrightarrow> validator s' = validator s \<and> emitted s' = emitted s \<and>
     initialized s' = initialized s \<and> conflictResolution s' = conflictResolution s \<and>
     encryptionService s' = encryptionService s \<and>
     (\<exists>entries. logged s' = logged s @ entries \<and> list_all (\<lambda>e. action e \<in> {GET, DECRYPT}) entries)"

lemma quiet_refl: "quiet s s"
  by (simp add: quiet_def)

lemma decryptIfNeeded_quiet:
  "decryptIfNeeded s now k options resolved = Inr (v, s') \<Longrightarrow>
   validator s' = validator s \<and> emitted s' = emitted s \<and> initialized s' = initialized s \<and>
   conflictResolution s' = conflictResolution s \<and> encryptionService s' = encryptionService s \<and>
   injCache s' = injCache s \<and> providers s' = providers s \<and>
   (logged s' = logged s \<or> (\<exists>e. logged s' = logged s @ [e] \<and> action e = DECRYPT))"
  by (auto simp: decryptIfNeeded_def split: PreferenceValue.splits if_splits sum.splits)

lemma getFromProviders_quiet:
  assumes "validator s0 = validator s" "emitted s0 = emitted s" "initialized s0 = initialized s"
    "conflictResolution s0 = conflictResolution s" "encryptionService s0 = encryptionService s"
    "logged s0 = logged s"
  shows "quiet s (snd (getFromProviders s0 now k options))"
proof -
  obtain r ps where g: "gather (providers s0) k = (r, ps)" by (cases "gather (providers s0) k")
  show ?thesis
  proof (cases r)
    case (Inl e)
    with g assms show ?thesis by (simp add: getFromProviders_def quiet_def Let_def)
  next
    case (Inr results)
    let ?s1 = "s0\<lparr>providers := ps\<rparr>"
    show ?thesis
    proof (cases "length results = 0")
      case True
      with g Inr assms show ?thesis
        by (auto simp: getFromProviders_def quiet_def Let_def split: option.splits)
    next
      case False
      show ?thesis
      proof (cases "resolve results (conflictResolution ?s1)")
        case (Inl e)
        with g Inr False assms show ?thesis by (simp add: getFromProviders_def quiet_def Let_def)
      next
        case res: (Inr resolved)
        show ?thesis
        proof (cases "decryptIfNeeded ?s1 now k options resolved")
          case (Inl e)
          with g Inr False res assms show ?thesis by (simp add: getFromProviders_def quiet_def Let_def)
        next
          case d: (Inr vs)
          obtain v s2 where vs: "vs = (v, s2)" by (cases vs)
          from decryptIfNeeded_quiet[OF d[unfolded vs]] assms
          have fr: "validator s2 = validator s" "emitted s2 = emitted s" "initialized s2 = initialized s"
            "conflictResolution s2 = conflictResolution s" "encryptionService s2 = encryptionService s"
            and lg: "logged s2 = logged s \<or> (\<exists>e. logged s2 = logged s @ [e] \<and> action e = DECRYPT)"
            by auto
          from g Inr False res d vs fr lg show ?thesis
            by (auto simp: getFromProviders_def quiet_def Let_def)
        qed
      qed
    qed
  qed
qed

lemma inj_get_quiet: "quiet s (snd (inj_get s now k options))"
proof (cases "usesCache options")
  case False
  then show ?thesis using getFromProviders_quiet[of s s now k options] by (simp add: inj_get_def)
next
  case True
  obtain r c where c: "cache_get (injCache s) now k = (r, c)" by (cases "cache_get (injCache s) now k")
  show ?thesis
  proof (cases r)
    case None
    with True c getFromProviders_quiet[of "s\<lparr>injCache := c\<rparr>" s now k options] show ?thesis
      by (simp add: inj_get_def)
  next
    case (Some hit)
    with True c show ?thesis by (simp add: inj_get_def quiet_def)
  qed
qed

lemma readOldValue_quiet: "quiet s (snd (readOldValue s now k))"
  using inj_get_quiet[of s now k "Some \<lparr>defaultValue = None, optDecrypt = None, useCache = Some False\<rparr>"]
  by (auto simp: readOldValue_def split: prod.splits sum.splits)

subsection \<open>initialize\<close>

lemma initializeAll_rejections:
  "fst (initializeAll ps) =
     concat (map (\<lambda>p. case fst (p_initialize p (p_state p)) of Inl e \<Rightarrow> [e] | Inr _ \<Rightarrow> []) ps)"
  by (induction ps) (auto split: prod.splits sum.splits)

lemma initializeAll_none:
  "fst (initializeAll ps) = [] \<longleftrightarrow> (\<forall>p \<in> set ps. fst (p_initialize p (p_state p)) = Inr ())"
  by (induction ps) (auto split: prod.splits sum.splits)

lemma initializeAll_some:
  "e \<in> set (fst (initializeAll ps)) \<Longrightarrow> \<exists>p \<in> set ps. fst (p_initialize p (p_state p)) = Inl e"
  by (induction ps) (auto split: prod.splits sum.splits)

text \<open>
  C7. \<^verbatim>\<open>initialize\<close> on an initialized injector changes nothing. Otherwise, when every
  provider's \<^verbatim>\<open>initialize\<close> succeeds it succeeds and sets the flag, after which a second
  call changes nothing; when some provider's \<^verbatim>\<open>initialize\<close> fails it fails with the error
  of a failing provider and leaves the flag false.
\<close>

theorem initialize_flag:
  "(initialized s \<longrightarrow> inj_initialize s = (Inr (), s)) \<and>
   (\<not> initialized s \<and> (\<forall>p \<in> set (providers s). fst (p_initialize p (p_state p)) = Inr ()) \<longrightarrow>
      fst (inj_initialize s) = Inr () \<and> initialized (snd (inj_initialize s)) \<and>
      inj_initialize (snd (inj_initialize s)) = (Inr (), snd (inj_initialize s))) \<and>
   (\<not> initialized s \<and> (\<exists>p \<in> set (providers s). fst (p_initialize p (p_state p)) \<noteq> Inr ()) \<longrightarrow>
      (\<exists>p \<in> set (providers s). \<exists>e. fst (p_initialize p (p_state p)) = Inl e \<and>
         fst (inj_initialize s) = Inl e) \<and>
      \<not> initialized (snd (inj_initialize s)))"
proof (intro conjI impI)
  assume "initialized s"
  then show "inj_initialize s = (Inr (), s)" by (simp add: inj_initialize_def)
next
  assume a: "\<not> initialized s \<and> (\<forall>p \<in> set (providers s). fst (p_initialize p (p_state p)) = Inr ())"
  obtain rejections ps where i: "initializeAll (providers s) = (rejections, ps)"
    by (cases "initializeAll (providers s)")
  with a initializeAll_none[of "providers s"] have "rejections = []" by simp
  with a i have r: "inj_initialize s = (Inr (), s\<lparr>providers := ps, initialized := True\<rparr>)"
    by (simp add: inj_initialize_def)
  then show "fst (inj_initialize s) = Inr ()" "initialized (snd (inj_initialize s))"
    "inj_initialize (snd (inj_initialize s)) = (Inr (), snd (inj_initialize s))"
    by (simp_all add: inj_initialize_def)
next
  assume a: "\<not> initialized s \<and> (\<exists>p \<in> set (providers s). fst (p_initialize p (p_state p)) \<noteq> Inr ())"
  obtain rejections ps where i: "initializeAll (providers s) = (rejections, ps)"
    by (cases "initializeAll (providers s)")
  with a initializeAll_none[of "providers s"] have "rejections \<noteq> []" by auto
  then obtain e es where "rejections = e # es" by (cases rejections) auto
  with i have es: "fst (initializeAll (providers s)) = e # es" by simp
  from a i \<open>rejections = e # es\<close> have r: "inj_initialize s = (Inl e, s\<lparr>providers := ps\<rparr>)"
    by (simp add: inj_initialize_def)
  from es initializeAll_some[of e "providers s"]
  obtain p where "p \<in> set (providers s)" "fst (p_initialize p (p_state p)) = Inl e" by auto
  with r show "\<exists>p \<in> set (providers s). \<exists>e. fst (p_initialize p (p_state p)) = Inl e \<and>
         fst (inj_initialize s) = Inl e" by auto
  from r a show "\<not> initialized (snd (inj_initialize s))" by simp
qed

subsection \<open>get without results\<close>

lemma gather_none:
  "\<forall>p \<in> set ps. fst (p_get p (p_state p) k) = Inr None \<Longrightarrow> fst (gather ps k) = Inr []"
  by (induction ps) (auto split: prod.splits sum.splits)

lemma getFromProviders_none:
  assumes "fst (gather (providers s) k) = Inr []"
  shows "fst (getFromProviders s now k options) =
     (case Option.bind options defaultValue of
        Some d \<Rightarrow> Inr d | None \<Rightarrow> Inl (PreferenceNotFoundError k))"
  using assms by (auto simp: getFromProviders_def Let_def split: prod.splits sum.splits option.splits)

text \<open>
  C8. When \<^verbatim>\<open>get\<close> reaches the providers (the cache is bypassed or misses) and every
  provider returns \<^verbatim>\<open>null\<close> for the key, the result is the default value when one is given,
  without an error, and the Not-Found error naming the key otherwise.
\<close>

theorem get_default_on_miss:
  assumes "\<not> usesCache options \<or> fst (cache_get (injCache s) now k) = None"
    and "\<forall>p \<in> set (providers s). fst (p_get p (p_state p) k) = Inr None"
  shows "fst (inj_get s now k options) =
     (case Option.bind options defaultValue of
        Some d \<Rightarrow> Inr d | None \<Rightarrow> Inl (PreferenceNotFoundError k))"
proof -
  note g = gather_none[OF assms(2)]
  show ?thesis
  proof (cases "usesCache options")
    case False
    then show ?thesis using getFromProviders_none[OF g] by (simp add: inj_get_def)
  next
    case True
    with assms(1) obtain c where c: "cache_get (injCache s) now k = (None, c)"
      by (cases "cache_get (injCache s) now k") auto
    have "fst (gather (providers (s\<lparr>injCache := c\<rparr>)) k) = Inr []" using g by simp
    from getFromProviders_none[OF this] True c show ?thesis by (simp add: inj_get_def)
  qed
qed

text \<open>The definitions that a concrete run of the injector unfolds.\<close>

lemmas inj_eval = constructor_def memoryProvider_def truthy_def usesCache_def validates_def
  inj_get_def getFromProviders_def decryptIfNeeded_def inj_set_def setWithOld_def readOldValue_def
  writeAndReport_def encryptIfNeeded_def inj_delete_def inj_initialize_def inj_addRule_def
  addRule_def validate_def checkRule_def newPreferenceValidator_def NoOpEncryptionService_def
  logAudit_def emitEvent_def maxEntries_def newLRUCache_def orDefault_def mapHas_def mapDelete_def
  resolve_def Let_def

text \<open>Two providers, the second of which fails to initialize.\<close>

theorem initialize_flag_witness:
  "\<not> initialized (constructor (Some \<lparr>cfgProviders = Some [memoryProvider 50 0 [],
         (memoryProvider 75 0 [])\<lparr>p_name := ''file'',
            p_initialize := (\<lambda>st. (Inl (Thrown ''ENOENT''), st))\<rparr>],
       cfgConflictResolution = None, enableCache = None, cacheTTL = None,
       enableValidation = None, enableEncryption = None, enableAudit = None,
       encryptionKey = None\<rparr>)) \<and>
   list_ex (\<lambda>p. fst (p_initialize p (p_state p)) \<noteq> Inr ())
     (providers (constructor (Some \<lparr>cfgProviders = Some [memoryProvider 50 0 [],
         (memoryProvider 75 0 [])\<lparr>p_name := ''file'',
            p_initialize := (\<lambda>st. (Inl (Thrown ''ENOENT''), st))\<rparr>],
       cfgConflictResolution = None, enableCache = None, cacheTTL = None,
       enableValidation = None, enableEncryption = None, enableAudit = None,
       encryptionKey = None\<rparr>))) \<and>
   fst (inj_initialize (constructor (Some \<lparr>cfgProviders = Some [memoryProvider 50 0 [],
         (memoryProvider 75 0 [])\<lparr>p_name := ''file'',
            p_initialize := (\<lambda>st. (Inl (Thrown ''ENOENT''), st))\<rparr>],
       cfgConflictResolution = None, enableCache = None, cacheTTL = None,
       enableValidation = None, enableEncryption = None, enableAudit = None,
       encryptionKey = None\<rparr>))) = Inl (Thrown ''ENOENT'') \<and>
   \<not> initialized (snd (inj_initialize (constructor (Some \<lparr>cfgProviders = Some [memoryProvider 50 0 [],
         (memoryProvider 75 0 [])\<lparr>p_name := ''file'',
            p_initialize := (\<lambda>st. (Inl (Thrown ''ENOENT''), st))\<rparr>],
       cfgConflictResolution = None, enableCache = None, cacheTTL = None,
       enableValidation = None, enableEncryption = None, enableAudit = None,
       encryptionKey = None\<rparr>))))"
  using initialize_flag[of "constructor (Some \<lparr>cfgProviders = Some [memoryProvider 50 0 [],
         (memoryProvider 75 0 [])\<lparr>p_name := ''file'',
            p_initialize := (\<lambda>st. (Inl (Thrown ''ENOENT''), st))\<rparr>],
       cfgConflictResolution = None, enableCache = None, cacheTTL = None,
       enableValidation = None, enableEncryption = None, enableAudit = None,
       encryptionKey = None\<rparr>)"]
  by (simp add: inj_eval)

text \<open>An empty provider behind an empty cache, with and without a default value.\<close>

theorem get_default_on_miss_witness:
  "usesCache (Some \<lparr>defaultValue = Some (PString ''d''), optDecrypt = None, useCache = None\<rparr>) \<and>
   fst (cache_get (injCache (constructor (Some \<lparr>cfgProviders = Some [memoryProvider 50 0 []],
       cfgConflictResolution = None, enableCache = Some True, cacheTTL = None,
       enableValidation = None, enableEncryption = None, enableAudit = None,
       encryptionKey = None\<rparr>))) 0 ''missing'') = None \<and>
   list_all (\<lambda>p. fst (p_get p (p_state p) ''missing'') = Inr None)
     (providers (constructor (Some \<lparr>cfgProviders = Some [memoryProvider 50 0 []],
       cfgConflictResolution = None, enableCache = Some True, cacheTTL = None,
       enableValidation = None, enableEncryption = None, enableAudit = None,
       encryptionKey = None\<rparr>))) \<and>
   fst (inj_get (constructor (Some \<lparr>cfgProviders = Some [memoryProvider 50 0 []],
       cfgConflictResolution = None, enableCache = Some True, cacheTTL = None,
       enableValidation = None, enableEncryption = None, enableAudit = None,
       encryptionKey = None\<rparr>)) 0 ''missing''
      (Some \<lparr>defaultValue = Some (PString ''d''), optDecrypt = None, useCache = None\<rparr>)) =
     Inr (PString ''d'') \<and>
   fst (inj_get (constructor (Some \<lparr>cfgProviders = Some [memoryProvider 50 0 []],
       cfgConflictResolution = None, enableCache = Some True, cacheTTL = None,
       enableValidation = None, enableEncryption = None, enableAudit = None,
       encryptionKey = None\<rparr>)) 0 ''missing'' None) =
     Inl (PreferenceNotFoundError ''missing'')"
  using get_default_on_miss[of
      "Some \<lparr>defaultValue = Some (PString ''d''), optDecrypt = None, useCache = None\<rparr>"
      "constructor (Some \<lparr>cfgProviders = Some [memoryProvider 50 0 []],
       cfgConflictResolution = None, enableCache = Some True, cacheTTL = None,
       enableValidation = None, enableEncryption = None, enableAudit = None,
       encryptionKey = None\<rparr>)" 0 "''missing''"]
    get_default_on_miss[of None
      "constructor (Some \<lparr>cfgProviders = Some [memoryProvider 50 0 []],
       cfgConflictResolution = None, enableCache = Some True, cacheTTL = None,
       enableValidation = None, enableEncryption = None, enableAudit = None,
       encryptionKey = None\<rparr>)" 0 "''missing''"]
  by (simp add: inj_eval lru_get_def)

subsection \<open>Validation in set\<close>

definition isValidate :: "AuditLogEntry \<Rightarrow> bool" where
  "isValidate e \<longleftrightarrow> action e = VALIDATE"

lemma quiet_validateEntries:
  "quiet s s' \<Longrightarrow> filter isValidate (logged s') = filter isValidate (logged s)"
proof -
  assume "quiet s s'"
  then obtain entries where e: "logged s' = logged s @ entries"
    and a: "list_all (\<lambda>e. action e \<in> {GET, DECRYPT}) entries" by (auto simp: quiet_def)
  from a have "filter isValidate entries = []"
    by (induction entries) (auto simp: isValidate_def)
  with e show ?thesis by simp
qed

lemma encryptIfNeeded_logged:
  "encryptIfNeeded s now k v options = Inr (fv, s') \<Longrightarrow>
   filter isValidate (logged s') = filter isValidate (logged s) \<and> emitted s' = emitted s \<and>
   validator s' = validator s"
  by (auto simp: encryptIfNeeded_def isValidate_def split: PreferenceValue.splits if_splits sum.splits)

lemma writeAndReport_logged:
  "filter isValidate (logged (snd (writeAndReport s now k v options old))) =
     filter isValidate (logged s)"
proof (cases "encryptIfNeeded s now k v options")
  case (Inl e)
  then show ?thesis by (simp add: writeAndReport_def)
next
  case (Inr fs)
  obtain fv s1 where fs: "fs = (fv, s1)" by (cases fs)
  obtain r ps where w: "setInProviders (providers s1) k fv options = (r, ps)"
    by (cases "setInProviders (providers s1) k fv options")
  from encryptIfNeeded_logged[OF Inr[unfolded fs]] Inr fs w show ?thesis
    by (cases r) (simp_all add: writeAndReport_def Let_def isValidate_def)
qed

lemma writeAndReport_emitted:
  assumes "fst (writeAndReport s now k v options old) = Inr ()"
  shows "emitted (snd (writeAndReport s now k v options old)) =
     emitted s @ [\<lparr>eventType = (if old = None then ADDED else CHANGED), eventKey = k,
                   newValue = Some v, oldValue = old, eventProvider = ''injector'',
                   eventTimestamp = now\<rparr>]"
proof (cases "encryptIfNeeded s now k v options")
  case (Inl e)
  with assms show ?thesis by (simp add: writeAndReport_def)
next
  case (Inr fs)
  obtain fv s1 where fs: "fs = (fv, s1)" by (cases fs)
  obtain r ps where w: "setInProviders (providers s1) k fv options = (r, ps)"
    by (cases "setInProviders (providers s1) k fv options")
  from encryptIfNeeded_logged[OF Inr[unfolded fs]] Inr fs w assms show ?thesis
    by (cases r) (simp_all add: writeAndReport_def Let_def)
qed

text \<open>
  C5 as stated fails: \<^verbatim>\<open>set\<close> throws on an invalid result before it reaches the VALIDATE
  entry, so a failed validation is not logged. With auditing enabled and a rule that
  rejects the value, \<^verbatim>\<open>set\<close> fails with the error list and the log stays empty.
\<close>

theorem set_validation_counterexample:
  "fst (inj_set (inj_addRule (constructor (Some \<lparr>cfgProviders = Some [memoryProvider 50 0 []],
       cfgConflictResolution = None, enableCache = None, cacheTTL = None,
       enableValidation = Some True, enableEncryption = None, enableAudit = Some True,
       encryptionKey = None\<rparr>)) ''email'' \<lparr>ruleName = ''email'', ruleValidate = (\<lambda>v. Inr (v = PString ''user@example.com'')),
        ruleMessage = Some ''Invalid email address''\<rparr>) 1 ''email'' (PString ''invalid-email'') None) =
     Inl (ValidationFailed [\<lparr>rule = ''email'', message = ''Invalid email address'',
                              rejected = PString ''invalid-email''\<rparr>]) \<and>
   getEntries (auditLogger (snd (inj_set (inj_addRule (constructor (Some \<lparr>cfgProviders = Some [memoryProvider 50 0 []],
       cfgConflictResolution = None, enableCache = None, cacheTTL = None,
       enableValidation = Some True, enableEncryption = None, enableAudit = Some True,
       encryptionKey = None\<rparr>)) ''email'' \<lparr>ruleName = ''email'', ruleValidate = (\<lambda>v. Inr (v = PString ''user@example.com'')),
        ruleMessage = Some ''Invalid email address''\<rparr>) 1 ''email'' (PString ''invalid-email'') None))) = [] \<and>
   logged (snd (inj_set (inj_addRule (constructor (Some \<lparr>cfgProviders = Some [memoryProvider 50 0 []],
       cfgConflictResolution = None, enableCache = None, cacheTTL = None,
       enableValidation = Some True, enableEncryption = None, enableAudit = Some True,
       encryptionKey = None\<rparr>)) ''email'' \<lparr>ruleName = ''email'', ruleValidate = (\<lambda>v. Inr (v = PString ''user@example.com'')),
        ruleMessage = Some ''Invalid email address''\<rparr>) 1 ''email'' (PString ''invalid-email'') None)) = []"
  by (simp add: inj_eval)

text \<open>
  C5, amended. Unless \<^verbatim>\<open>options.validate\<close> is \<^verbatim>\<open>false\<close>, an invalid result makes \<^verbatim>\<open>set\<close>
  fail with the error list, in the state the read of the old value left; and \<^verbatim>\<open>set\<close> logs
  a VALIDATE entry exactly when validation ran and the result was valid: none when the
  result was invalid, none when validation was skipped.
\<close>

theorem set_validation:
  "(Option.bind options optValidate \<noteq> Some False \<and> \<not> valid (validate (validator s) k v) \<longrightarrow>
      inj_set s now k v options =
        (Inl (ValidationFailed (errors (validate (validator s) k v))), snd (readOldValue s now k))) \<and>
   filter isValidate (logged (snd (inj_set s now k v options))) =
     filter isValidate (logged s) @
       (if Option.bind options optValidate \<noteq> Some False \<and> valid (validate (validator s) k v)
        then [\<lparr>logTimestamp = now, action = VALIDATE, logKey = k, logValue = Some v,
               logOldValue = None, logProvider = ''validator''\<rparr>]
        else [])"
proof -
  obtain old s1 where r: "readOldValue s now k = (old, s1)" by (cases "readOldValue s now k")
  from readOldValue_quiet[of s now k] r have q: "quiet s s1" by simp
  then have vd: "validator s1 = validator s" by (simp add: quiet_def)
  note lg = quiet_validateEntries[OF q]
  show ?thesis
  proof (cases "Option.bind options optValidate \<noteq> Some False")
    case False
    with r lg show ?thesis
      by (simp add: inj_set_def setWithOld_def validates_def writeAndReport_logged)
  next
    case True
    show ?thesis
    proof (cases "valid (validate (validator s) k v)")
      case False
      with True r vd lg show ?thesis
        by (simp add: inj_set_def setWithOld_def validates_def Let_def)
    next
      case ok: True
      with True r vd lg show ?thesis
        by (simp add: inj_set_def setWithOld_def validates_def Let_def writeAndReport_logged
            isValidate_def)
    qed
  qed
qed

text \<open>The rule of the counterexample, with a value it rejects and one it accepts.\<close>

theorem set_validation_witness:
  "Option.bind (None :: SetOptions option) optValidate \<noteq> Some False \<and>
   \<not> valid (validate (validator (inj_addRule (constructor (Some \<lparr>cfgProviders = Some [memoryProvider 50 0 []],
       cfgConflictResolution = None, enableCache = None, cacheTTL = None,
       enableValidation = Some True, enableEncryption = None, enableAudit = Some True,
       encryptionKey = None\<rparr>)) ''email'' \<lparr>ruleName = ''email'', ruleValidate = (\<lambda>v. Inr (v = PString ''user@example.com'')),
        ruleMessage = Some ''Invalid email address''\<rparr>)) ''email'' (PString ''invalid-email'')) \<and>
   fst (inj_set (inj_addRule (constructor (Some \<lparr>cfgProviders = Some [memoryProvider 50 0 []],
       cfgConflictResolution = None, enableCache = None, cacheTTL = None,
       enableValidation = Some True, enableEncryption = None, enableAudit = Some True,
       encryptionKey = None\<rparr>)) ''email'' \<lparr>ruleName = ''email'', ruleValidate = (\<lambda>v. Inr (v = PString ''user@example.com'')),
        ruleMessage = Some ''Invalid email address''\<rparr>) 1 ''email'' (PString ''invalid-email'') None) =
     Inl (ValidationFailed [\<lparr>rule = ''email'', message = ''Invalid email address'',
                              rejected = PString ''invalid-email''\<rparr>]) \<and>
   filter isValidate (logged (snd (inj_set (inj_addRule (constructor (Some \<lparr>cfgProviders = Some [memoryProvider 50 0 []],
       cfgConflictResolution = None, enableCache = None, cacheTTL = None,
       enableValidation = Some True, enableEncryption = None, enableAudit = Some True,
       encryptionKey = None\<rparr>)) ''email'' \<lparr>ruleName = ''email'', ruleValidate = (\<lambda>v. Inr (v = PString ''user@example.com'')),
        ruleMessage = Some ''Invalid email address''\<rparr>) 1 ''email'' (PString ''user@example.com'') None))) =
     [\<lparr>logTimestamp = 1, action = VALIDATE, logKey = ''email'',
       logValue = Some (PString ''user@example.com''), logOldValue = None,
       logProvider = ''validator''\<rparr>]"
  using set_validation[of None "(inj_addRule (constructor (Some \<lparr>cfgProviders = Some [memoryProvider 50 0 []],
       cfgConflictResolution = None, enableCache = None, cacheTTL = None,
       enableValidation = Some True, enableEncryption = None, enableAudit = Some True,
       encryptionKey = None\<rparr>)) ''email'' \<lparr>ruleName = ''email'', ruleValidate = (\<lambda>v. Inr (v = PString ''user@example.com'')),
        ruleMessage = Some ''Invalid email address''\<rparr>)" "''email''" "PString ''invalid-email''" 1]
    set_validation[of None "(inj_addRule (constructor (Some \<lparr>cfgProviders = Some [memoryProvider 50 0 []],
       cfgConflictResolution = None, enableCache = None, cacheTTL = None,
       enableValidation = Some True, enableEncryption = None, enableAudit = Some True,
       encryptionKey = None\<rparr>)) ''email'' \<lparr>ruleName = ''email'', ruleValidate = (\<lambda>v. Inr (v = PString ''user@example.com'')),
        ruleMessage = Some ''Invalid email address''\<rparr>)" "''email''" "PString ''user@example.com''" 1]
  by (simp add: inj_eval)

subsection \<open>The flag enableValidation\<close>

text \<open>
  \<open>alike s t\<close>: the two states differ in their validator at most.
\<close>

definition alike :: "'s PreferenceInjector \<Rightarrow> 's PreferenceInjector \<Rightarrow> bool" where
  "alike s t \<longleftrightarrow> t = s\<lparr>validator := validator t\<rparr>"

lemma alike_fields:
  "alike s t \<Longrightarrow> providers t = providers s \<and> conflictResolution t = conflictResolution s \<and>
     injCache t = injCache s \<and> auditLogger t = auditLogger s \<and>
     encryptionService t = encryptionService s \<and> initialized t = initialized s \<and>
     logged t = logged s \<and> emitted t = emitted s"
  unfolding alike_def by (metis PreferenceInjector.select_convs PreferenceInjector.surjective
      PreferenceInjector.update_convs(4))

lemma alikeI:
  "providers t = providers s \<Longrightarrow> conflictResolution t = conflictResolution s \<Longrightarrow>
   injCache t = injCache s \<Longrightarrow> auditLogger t = auditLogger s \<Longrightarrow>
   encryptionService t = encryptionService s \<Longrightarrow> initialized t = initialized s \<Longrightarrow>
   logged t = logged s \<Longrightarrow> emitted t = emitted s \<Longrightarrow>
   PreferenceInjector.more t = PreferenceInjector.more s \<Longrightarrow> alike s t"
  unfolding alike_def by (rule PreferenceInjector.equality) simp_all

lemma alike_upd: "alike s t \<Longrightarrow> t = s\<lparr>validator := validator t\<rparr>"
  by (simp add: alike_def)

lemma alike_logAudit: "alike s t \<Longrightarrow> alike (logAudit s e) (logAudit t e)"
  by (drule alike_fields) (auto intro!: alikeI simp: logAudit_def)

lemma alike_providers: "alike s t \<Longrightarrow> alike (s\<lparr>providers := ps\<rparr>) (t\<lparr>providers := ps\<rparr>)"
  by (drule alike_fields) (auto intro!: alikeI)

lemma alike_injCache: "alike s t \<Longrightarrow> alike (s\<lparr>injCache := c\<rparr>) (t\<lparr>injCache := c\<rparr>)"
  by (drule alike_fields) (auto intro!: alikeI)

lemma alike_emitEvent: "alike s t \<Longrightarrow> alike (emitEvent s e) (emitEvent t e)"
  by (drule alike_fields) (auto intro!: alikeI simp: emitEvent_def)

text \<open>Two outcomes with the same result and states that are alike.\<close>

definition sameOutcome ::
  "'a \<times> 's PreferenceInjector \<Rightarrow> 'a \<times> 's PreferenceInjector \<Rightarrow> bool" where
  "sameOutcome r r' \<longleftrightarrow> fst r' = fst r \<and> alike (snd r) (snd r')"

lemma decryptIfNeeded_alike:
  assumes "alike s t"
  shows "(case decryptIfNeeded s now k options resolved of
            Inl e \<Rightarrow> decryptIfNeeded t now k options resolved = Inl e
          | Inr (v, s') \<Rightarrow> \<exists>t'. decryptIfNeeded t now k options resolved = Inr (v, t') \<and>
                             alike s' t' \<and> validator t' = validator t)"
  using alike_fields[OF assms] alike_logAudit[OF assms] assms
  by (auto simp: decryptIfNeeded_def split: PreferenceValue.splits sum.splits)

lemma getFromProviders_alike:
  assumes a: "alike s t"
  shows "sameOutcome (getFromProviders s now k options) (getFromProviders t now k options) \<and>
         validator (snd (getFromProviders t now k options)) = validator t"
proof -
  note f = alike_fields[OF a]
  obtain r ps where g: "gather (providers s) k = (r, ps)" by (cases "gather (providers s) k")
  with f have g': "gather (providers t) k = (r, ps)" by simp
  let ?s1 = "s\<lparr>providers := ps\<rparr>" and ?t1 = "t\<lparr>providers := ps\<rparr>"
  note a1 = alike_providers[OF a, of ps]
  show ?thesis
  proof (cases r)
    case (Inl e)
    with g g' a1 show ?thesis by (simp add: getFromProviders_def sameOutcome_def)
  next
    case (Inr results)
    show ?thesis
    proof (cases "length results = 0")
      case True
      with g g' Inr a1 show ?thesis
        by (auto simp: getFromProviders_def sameOutcome_def Let_def split: option.splits)
    next
      case False
      show ?thesis
      proof (cases "resolve results (conflictResolution s)")
        case (Inl e)
        with g g' Inr False a1 f show ?thesis
          by (simp add: getFromProviders_def sameOutcome_def Let_def)
      next
        case res: (Inr resolved)
        show ?thesis
        proof (cases "decryptIfNeeded ?s1 now k options resolved")
          case (Inl e)
          with decryptIfNeeded_alike[OF a1, of now k options resolved]
          have "decryptIfNeeded ?t1 now k options resolved = Inl e" by simp
          with Inl g g' Inr False res a1 f show ?thesis
            by (simp add: getFromProviders_def sameOutcome_def Let_def)
        next
          case d: (Inr vs)
          obtain v s2 where vs: "vs = (v, s2)" by (cases vs)
          with d decryptIfNeeded_alike[OF a1, of now k options resolved]
          obtain t2 where d': "decryptIfNeeded ?t1 now k options resolved = Inr (v, t2)"
            and a2: "alike s2 t2" and v2: "validator t2 = validator t" by auto
          note f2 = alike_fields[OF a2]
          let ?c = "cache_set (injCache s2) now k (resolved\<lparr>pvalue := v\<rparr>) (ttl resolved)"
          let ?e = "\<lparr>logTimestamp = now, action = GET, logKey = k, logValue = Some v,
                     logOldValue = None, logProvider = source resolved\<rparr>"
          have fin: "alike (logAudit (s2\<lparr>injCache := ?c\<rparr>) ?e) (logAudit (t2\<lparr>injCache := ?c\<rparr>) ?e)"
            "alike (logAudit s2 ?e) (logAudit t2 ?e)"
            using alike_injCache[OF a2, of ?c] a2 by (auto intro: alike_logAudit)
          from g g' Inr False res d d' vs f f2 v2 fin show ?thesis
            by (simp add: getFromProviders_def sameOutcome_def Let_def)
        qed
      qed
    qed
  qed
qed

lemma inj_get_alike:
  assumes a: "alike s t"
  shows "sameOutcome (inj_get s now k options) (inj_get t now k options) \<and>
         validator (snd (inj_get t now k options)) = validator t"
proof (cases "usesCache options")
  case False
  with getFromProviders_alike[OF a, of now k options] show ?thesis by (simp add: inj_get_def)
next
  case True
  note f = alike_fields[OF a]
  obtain r c where c: "cache_get (injCache s) now k = (r, c)" by (cases "cache_get (injCache s) now k")
  with f have c': "cache_get (injCache t) now k = (r, c)" by simp
  show ?thesis
  proof (cases r)
    case None
    with True c c' getFromProviders_alike[OF alike_injCache[OF a, of c], of now k options]
    show ?thesis by (simp add: inj_get_def)
  next
    case (Some hit)
    with True c c' alike_logAudit[OF alike_injCache[OF a, of c]] show ?thesis
      by (simp add: inj_get_def sameOutcome_def)
  qed
qed

lemma readOldValue_alike:
  assumes a: "alike s t"
  shows "sameOutcome (readOldValue s now k) (readOldValue t now k) \<and>
         validator (snd (readOldValue t now k)) = validator t"
  using inj_get_alike[OF a, of now k "Some \<lparr>defaultValue = None, optDecrypt = None, useCache = Some False\<rparr>"]
  by (auto simp: readOldValue_def sameOutcome_def split: prod.splits sum.splits)

lemma encryptIfNeeded_alike:
  assumes "alike s t"
  shows "(case encryptIfNeeded s now k v options of
            Inl e \<Rightarrow> encryptIfNeeded t now k v options = Inl e
          | Inr (fv, s') \<Rightarrow> \<exists>t'. encryptIfNeeded t now k v options = Inr (fv, t') \<and> alike s' t')"
  using alike_fields[OF assms] alike_logAudit[OF assms] assms
  by (auto simp: encryptIfNeeded_def split: PreferenceValue.splits sum.splits)

lemma writeAndReport_alike:
  assumes a: "alike s t"
  shows "sameOutcome (writeAndReport s now k v options old) (writeAndReport t now k v options old)"
proof (cases "encryptIfNeeded s now k v options")
  case (Inl e)
  with encryptIfNeeded_alike[OF a, of now k v options] a show ?thesis
    by (simp add: writeAndReport_def sameOutcome_def)
next
  case (Inr fs)
  obtain fv s1 where fs: "fs = (fv, s1)" by (cases fs)
  with Inr encryptIfNeeded_alike[OF a, of now k v options]
  obtain t1 where e': "encryptIfNeeded t now k v options = Inr (fv, t1)" and a1: "alike s1 t1"
    by auto
  note f1 = alike_fields[OF a1]
  obtain r ps where w: "setInProviders (providers s1) k fv options = (r, ps)"
    by (cases "setInProviders (providers s1) k fv options")
  with f1 have w': "setInProviders (providers t1) k fv options = (r, ps)" by simp
  show ?thesis
  proof (cases r)
    case (Inl e)
    with Inr fs e' w w' alike_providers[OF a1, of ps] show ?thesis
      by (simp add: writeAndReport_def sameOutcome_def)
  next
    case ok: (Inr u)
    let ?c = "snd (cache_delete (injCache s1) k)"
    have "alike (emitEvent (logAudit (s1\<lparr>providers := ps, injCache := ?c\<rparr>) e1) e2)
                (emitEvent (logAudit (t1\<lparr>providers := ps, injCache := ?c\<rparr>) e1) e2)" for e1 e2
      using alike_injCache[OF alike_providers[OF a1, of ps], of ?c]
      by (auto intro!: alike_emitEvent alike_logAudit)
    with Inr fs e' w w' ok f1 show ?thesis
      by (simp add: writeAndReport_def sameOutcome_def Let_def)
  qed
qed

lemma writeAndReport_validator:
  "validator (snd (writeAndReport s now k v options old)) = validator s"
proof (cases "encryptIfNeeded s now k v options")
  case (Inl e)
  then show ?thesis by (simp add: writeAndReport_def)
next
  case (Inr fs)
  obtain fv s1 where fs: "fs = (fv, s1)" by (cases fs)
  obtain r ps where w: "setInProviders (providers s1) k fv options = (r, ps)"
    by (cases "setInProviders (providers s1) k fv options")
  from encryptIfNeeded_logged[OF Inr[unfolded fs]] Inr fs w show ?thesis
    by (cases r) (simp_all add: writeAndReport_def Let_def)
qed

lemma inj_set_invalid:
  assumes "Option.bind options optValidate \<noteq> Some False"
    and "\<not> valid (validate (validator s) k v)"
  shows "inj_set s now k v options =
     (Inl (ValidationFailed (errors (validate (validator s) k v))), snd (readOldValue s now k))"
proof -
  obtain old s1 where r: "readOldValue s now k = (old, s1)" by (cases "readOldValue s now k")
  from readOldValue_quiet[of s now k] r have "validator s1 = validator s" by (simp add: quiet_def)
  with assms r show ?thesis by (simp add: inj_set_def setWithOld_def validates_def Let_def)
qed

lemma inj_set_unvalidated:
  assumes "Option.bind options optValidate = Some False"
  shows "inj_set (s\<lparr>validator := vd\<rparr>) now k v options =
     (fst (inj_set s now k v options), (snd (inj_set s now k v options))\<lparr>validator := vd\<rparr>)"
proof -
  let ?t = "s\<lparr>validator := vd\<rparr>"
  have a: "alike s ?t" by (simp add: alike_def)
  obtain old s1 where r: "readOldValue s now k = (old, s1)" by (cases "readOldValue s now k")
  obtain old' t1 where r': "readOldValue ?t now k = (old', t1)" by (cases "readOldValue ?t now k")
  from readOldValue_alike[OF a, of now k] r r'
  have old: "old' = old" and a1: "alike s1 t1" and v1: "validator t1 = vd"
    by (simp_all add: sameOutcome_def)
  let ?r = "writeAndReport s1 now k v options old" and ?r' = "writeAndReport t1 now k v options old"
  from writeAndReport_alike[OF a1, of now k v options old]
  have f: "fst ?r' = fst ?r" and a2: "alike (snd ?r) (snd ?r')" by (simp_all add: sameOutcome_def)
  from writeAndReport_validator[of t1 now k v options old] v1 have "validator (snd ?r') = vd" by simp
  with alike_upd[OF a2] have "snd ?r' = (snd ?r)\<lparr>validator := vd\<rparr>" by simp
  with f have "?r' = (fst ?r, (snd ?r)\<lparr>validator := vd\<rparr>)" by (metis prod.collapse)
  with assms r r' old show ?thesis by (simp add: inj_set_def setWithOld_def validates_def)
qed

text \<open>
  C9. The constructor builds the same injector whatever \<^verbatim>\<open>enableValidation\<close> is, with a new
  \<^verbatim>\<open>PreferenceValidator\<close>. On every injector, \<^verbatim>\<open>set\<close> with options that do not say
  \<^verbatim>\<open>validate: false\<close> (the default options among them) fails on a value its validator
  rejects; with \<^verbatim>\<open>validate: false\<close> the validator has no influence on what \<^verbatim>\<open>set\<close> does.
\<close>

theorem enableValidation_no_effect:
  "constructor (Some (config\<lparr>enableValidation := a\<rparr>)) =
     constructor (Some (config\<lparr>enableValidation := b\<rparr>)) \<and>
   validator (constructor (Some (config\<lparr>enableValidation := a\<rparr>))) = newPreferenceValidator \<and>
   (Option.bind options optValidate \<noteq> Some False \<and> \<not> valid (validate (validator s) k v) \<longrightarrow>
      fst (inj_set s now k v options) =
        Inl (ValidationFailed (errors (validate (validator s) k v)))) \<and>
   (Option.bind options optValidate = Some False \<longrightarrow>
      inj_set (s\<lparr>validator := vd\<rparr>) now k v options =
        (fst (inj_set s now k v options), (snd (inj_set s now k v options))\<lparr>validator := vd\<rparr>))"
proof (intro conjI impI)
  show "constructor (Some (config\<lparr>enableValidation := a\<rparr>)) =
     constructor (Some (config\<lparr>enableValidation := b\<rparr>))"
    by (simp add: constructor_def)
  show "validator (constructor (Some (config\<lparr>enableValidation := a\<rparr>))) = newPreferenceValidator"
    by (simp add: constructor_def)
next
  assume "Option.bind options optValidate \<noteq> Some False \<and> \<not> valid (validate (validator s) k v)"
  then show "fst (inj_set s now k v options) =
        Inl (ValidationFailed (errors (validate (validator s) k v)))"
    by (simp add: inj_set_invalid)
next
  assume "Option.bind options optValidate = Some False"
  then show "inj_set (s\<lparr>validator := vd\<rparr>) now k v options =
        (fst (inj_set s now k v options), (snd (inj_set s now k v options))\<lparr>validator := vd\<rparr>)"
    by (rule inj_set_unvalidated)
qed

text \<open>
  An injector built with \<^verbatim>\<open>enableValidation: false\<close>: a rule added to its validator still
  rejects a \<^verbatim>\<open>set\<close> with default options, and \<^verbatim>\<open>validate: false\<close> lets the same value
  through.
\<close>

theorem enableValidation_no_effect_witness:
  "\<not> valid (validate (validator (inj_addRule (constructor (Some \<lparr>cfgProviders = Some [memoryProvider 50 0 []],
       cfgConflictResolution = None, enableCache = None, cacheTTL = None,
       enableValidation = Some False, enableEncryption = None, enableAudit = None,
       encryptionKey = None\<rparr>)) ''count'' \<lparr>ruleName = ''one'', ruleValidate = (\<lambda>v. Inr (v = PNumber 1)),
        ruleMessage = None\<rparr>)) ''count'' (PNumber 2)) \<and>
   fst (inj_set (inj_addRule (constructor (Some \<lparr>cfgProviders = Some [memoryProvider 50 0 []],
       cfgConflictResolution = None, enableCache = None, cacheTTL = None,
       enableValidation = Some False, enableEncryption = None, enableAudit = None,
       encryptionKey = None\<rparr>)) ''count'' \<lparr>ruleName = ''one'', ruleValidate = (\<lambda>v. Inr (v = PNumber 1)),
        ruleMessage = None\<rparr>) 1 ''count'' (PNumber 2) None) =
     Inl (ValidationFailed [\<lparr>rule = ''one'', message = ''Validation failed for rule: one'',
                              rejected = PNumber 2\<rparr>]) \<and>
   fst (inj_set (inj_addRule (constructor (Some \<lparr>cfgProviders = Some [memoryProvider 50 0 []],
       cfgConflictResolution = None, enableCache = None, cacheTTL = None,
       enableValidation = Some False, enableEncryption = None, enableAudit = None,
       encryptionKey = None\<rparr>)) ''count'' \<lparr>ruleName = ''one'', ruleValidate = (\<lambda>v. Inr (v = PNumber 1)),
        ruleMessage = None\<rparr>) 1 ''count'' (PNumber 2)
      (Some \<lparr>optPriority = None, optTtl = None, optEncrypt = None, optValidate = Some False\<rparr>)) =
     Inr ()"
  using enableValidation_no_effect[of _ _ _ None "inj_addRule (constructor (Some \<lparr>cfgProviders = Some [memoryProvider 50 0 []],
       cfgConflictResolution = None, enableCache = None, cacheTTL = None,
       enableValidation = Some False, enableEncryption = None, enableAudit = None,
       encryptionKey = None\<rparr>)) ''count'' \<lparr>ruleName = ''one'', ruleValidate = (\<lambda>v. Inr (v = PNumber 1)),
        ruleMessage = None\<rparr>" "''count''" "PNumber 2" 1]
    enableValidation_no_effect[of _ _ _
      "Some \<lparr>optPriority = None, optTtl = None, optEncrypt = None, optValidate = Some False\<rparr>"
      "constructor (Some \<lparr>cfgProviders = Some [memoryProvider 50 0 []],
       cfgConflictResolution = None, enableCache = None, cacheTTL = None,
       enableValidation = Some False, enableEncryption = None, enableAudit = None,
       encryptionKey = None\<rparr>)" "''count''" "PNumber 2" 1
      "validator (inj_addRule (constructor (Some \<lparr>cfgProviders = Some [memoryProvider 50 0 []],
       cfgConflictResolution = None, enableCache = None, cacheTTL = None,
       enableValidation = Some False, enableEncryption = None, enableAudit = None,
       encryptionKey = None\<rparr>)) ''count'' \<lparr>ruleName = ''one'', ruleValidate = (\<lambda>v. Inr (v = PNumber 1)),
        ruleMessage = None\<rparr>)"]
  by (simp add: inj_eval)

subsection \<open>The read of the old value\<close>

lemma inj_delete_emitted:
  assumes "readOldValue s now k = (old, s1)" and "fst (inj_delete s now k) = Inr True"
  shows "emitted (snd (inj_delete s now k)) =
     emitted s1 @ [\<lparr>eventType = REMOVED, eventKey = k, newValue = None, oldValue = old,
                    eventProvider = ''injector'', eventTimestamp = now\<rparr>]"
proof -
  obtain r ps where d: "deleteInProviders (providers s1) k = (r, ps)"
    by (cases "deleteInProviders (providers s1) k")
  from assms d show ?thesis
    by (cases r) (auto simp: inj_delete_def Let_def split: if_splits)
qed

text \<open>
  C10. Whatever error the read of the old value fails with, \<^verbatim>\<open>set\<close> goes on as without a
  previous value, and when it completes the event it emits is ADDED with no old value; a
  \<^verbatim>\<open>delete\<close> that removes something then emits REMOVED with no old value. \<^verbatim>\<open>delete\<close> too
  goes on as without a previous value: it fails only when a provider's \<^verbatim>\<open>delete\<close> fails,
  and what it logs and emits carries no old value.
\<close>

theorem old_value_read_swallows:
  assumes "fst (inj_get s now k (Some \<lparr>defaultValue = None, optDecrypt = None, useCache = Some False\<rparr>)) = Inl e"
  shows "inj_set s now k v options =
           setWithOld (snd (inj_get s now k (Some \<lparr>defaultValue = None, optDecrypt = None, useCache = Some False\<rparr>))) now k v options None \<and>
         (fst (inj_set s now k v options) = Inr () \<longrightarrow>
            emitted (snd (inj_set s now k v options)) =
              emitted s @ [\<lparr>eventType = ADDED, eventKey = k, newValue = Some v, oldValue = None,
                             eventProvider = ''injector'', eventTimestamp = now\<rparr>]) \<and>
         (fst (inj_delete s now k) = Inr True \<longrightarrow>
            emitted (snd (inj_delete s now k)) =
              emitted s @ [\<lparr>eventType = REMOVED, eventKey = k, newValue = None, oldValue = None,
                             eventProvider = ''injector'', eventTimestamp = now\<rparr>]) \<and>
         inj_delete s now k =
           (case deleteInProviders (providers (snd (inj_get s now k (Some \<lparr>defaultValue = None, optDecrypt = None, useCache = Some False\<rparr>)))) k of
              (Inl e', ps) \<Rightarrow> (Inl e', (snd (inj_get s now k (Some \<lparr>defaultValue = None, optDecrypt = None, useCache = Some False\<rparr>)))\<lparr>providers := ps\<rparr>)
            | (Inr deleted, ps) \<Rightarrow>
                if deleted then
                  (Inr True,
                   emitEvent
                     (logAudit
                        ((snd (inj_get s now k (Some \<lparr>defaultValue = None, optDecrypt = None, useCache = Some False\<rparr>)))\<lparr>providers := ps,
                            injCache := snd (cache_delete (injCache (snd (inj_get s now k (Some \<lparr>defaultValue = None, optDecrypt = None, useCache = Some False\<rparr>)))) k)\<rparr>)
                        \<lparr>logTimestamp = now, action = DELETE, logKey = k, logValue = None,
                         logOldValue = None, logProvider = ''injector''\<rparr>)
                     \<lparr>eventType = REMOVED, eventKey = k, newValue = None, oldValue = None,
                      eventProvider = ''injector'', eventTimestamp = now\<rparr>)
                else (Inr False, (snd (inj_get s now k (Some \<lparr>defaultValue = None, optDecrypt = None, useCache = Some False\<rparr>)))\<lparr>providers := ps\<rparr>))"
proof -
  let ?s1 = "snd (inj_get s now k (Some \<lparr>defaultValue = None, optDecrypt = None, useCache = Some False\<rparr>))"
  from assms have r: "readOldValue s now k = (None, ?s1)"
    by (auto simp: readOldValue_def split: prod.splits sum.splits)
  from readOldValue_quiet[of s now k] r have em: "emitted ?s1 = emitted s" by (simp add: quiet_def)
  have 1: "inj_set s now k v options = setWithOld ?s1 now k v options None"
    by (simp add: inj_set_def r)
  have 2: "emitted (snd (inj_set s now k v options)) =
              emitted s @ [\<lparr>eventType = ADDED, eventKey = k, newValue = Some v, oldValue = None,
                             eventProvider = ''injector'', eventTimestamp = now\<rparr>]"
    if ok: "fst (inj_set s now k v options) = Inr ()"
  proof (cases "validates options")
    case False
    with ok 1 writeAndReport_emitted[of ?s1 now k v options None] em show ?thesis
      by (simp add: setWithOld_def)
  next
    case True
    let ?s2 = "logAudit ?s1 \<lparr>logTimestamp = now, action = VALIDATE, logKey = k,
                 logValue = Some v, logOldValue = None, logProvider = ''validator''\<rparr>"
    from True ok 1 have "valid (validate (validator ?s1) k v)"
      by (auto simp: setWithOld_def Let_def split: if_splits)
    with True ok 1 writeAndReport_emitted[of ?s2 now k v options None] em show ?thesis
      by (simp add: setWithOld_def Let_def)
  qed
  have 3: "emitted (snd (inj_delete s now k)) =
              emitted s @ [\<lparr>eventType = REMOVED, eventKey = k, newValue = None, oldValue = None,
                             eventProvider = ''injector'', eventTimestamp = now\<rparr>]"
    if "fst (inj_delete s now k) = Inr True"
    using inj_delete_emitted[OF r that] em by simp
  have 4: "inj_delete s now k =
           (case deleteInProviders (providers ?s1) k of
              (Inl e', ps) \<Rightarrow> (Inl e', ?s1\<lparr>providers := ps\<rparr>)
            | (Inr deleted, ps) \<Rightarrow>
                if deleted then
                  (Inr True,
                   emitEvent
                     (logAudit
                        (?s1\<lparr>providers := ps,
                            injCache := snd (cache_delete (injCache ?s1) k)\<rparr>)
                        \<lparr>logTimestamp = now, action = DELETE, logKey = k, logValue = None,
                         logOldValue = None, logProvider = ''injector''\<rparr>)
                     \<lparr>eventType = REMOVED, eventKey = k, newValue = None, oldValue = None,
                      eventProvider = ''injector'', eventTimestamp = now\<rparr>)
                else (Inr False, ?s1\<lparr>providers := ps\<rparr>))"
    by (simp add: inj_delete_def r Let_def split: prod.splits sum.splits)
  from 1 2 3 4 show ?thesis by blast
qed

text \<open>
  Two providers that both hold the key, under the ERROR strategy: the read fails with a
  Conflict error, \<^verbatim>\<open>set\<close> succeeds and reports the key as added, and \<^verbatim>\<open>delete\<close> succeeds
  and reports the key as removed, without an old value.
\<close>

theorem old_value_read_swallows_witness:
  "fst (inj_get (constructor (Some \<lparr>cfgProviders = Some [memoryProvider 25 0 [(''theme'', \<lparr>key = ''theme'', pvalue = PString ''light'', priority = 25, source = ''memory'',
          timestamp = 0, encrypted = None, validated = None, ttl = None\<rparr>)],
         memoryProvider 75 0 [(''theme'', \<lparr>key = ''theme'', pvalue = PString ''dark'', priority = 75, source = ''memory'',
          timestamp = 0, encrypted = None, validated = None, ttl = None\<rparr>)]],
       cfgConflictResolution = Some ERROR, enableCache = None, cacheTTL = None,
       enableValidation = None, enableEncryption = None, enableAudit = None,
       encryptionKey = None\<rparr>)) 5 ''theme'' (Some \<lparr>defaultValue = None, optDecrypt = None, useCache = Some False\<rparr>)) = Inl (ConflictError ''theme'' [''memory'', ''memory'']) \<and>
   fst (inj_set (constructor (Some \<lparr>cfgProviders = Some [memoryProvider 25 0 [(''theme'', \<lparr>key = ''theme'', pvalue = PString ''light'', priority = 25, source = ''memory'',
          timestamp = 0, encrypted = None, validated = None, ttl = None\<rparr>)],
         memoryProvider 75 0 [(''theme'', \<lparr>key = ''theme'', pvalue = PString ''dark'', priority = 75, source = ''memory'',
          timestamp = 0, encrypted = None, validated = None, ttl = None\<rparr>)]],
       cfgConflictResolution = Some ERROR, enableCache = None, cacheTTL = None,
       enableValidation = None, enableEncryption = None, enableAudit = None,
       encryptionKey = None\<rparr>)) 5 ''theme'' (PString ''blue'') None) = Inr () \<and>
   emitted (snd (inj_set (constructor (Some \<lparr>cfgProviders = Some [memoryProvider 25 0 [(''theme'', \<lparr>key = ''theme'', pvalue = PString ''light'', priority = 25, source = ''memory'',
          timestamp = 0, encrypted = None, validated = None, ttl = None\<rparr>)],
         memoryProvider 75 0 [(''theme'', \<lparr>key = ''theme'', pvalue = PString ''dark'', priority = 75, source = ''memory'',
          timestamp = 0, encrypted = None, validated = None, ttl = None\<rparr>)]],
       cfgConflictResolution = Some ERROR, enableCache = None, cacheTTL = None,
       enableValidation = None, enableEncryption = None, enableAudit = None,
       encryptionKey = None\<rparr>)) 5 ''theme'' (PString ''blue'') None)) =
     [\<lparr>eventType = ADDED, eventKey = ''theme'', newValue = Some (PString ''blue''), oldValue = None,
       eventProvider = ''injector'', eventTimestamp = 5\<rparr>] \<and>
   fst (inj_delete (constructor (Some \<lparr>cfgProviders = Some [memoryProvider 25 0 [(''theme'', \<lparr>key = ''theme'', pvalue = PString ''light'', priority = 25, source = ''memory'',
          timestamp = 0, encrypted = None, validated = None, ttl = None\<rparr>)],
         memoryProvider 75 0 [(''theme'', \<lparr>key = ''theme'', pvalue = PString ''dark'', priority = 75, source = ''memory'',
          timestamp = 0, encrypted = None, validated = None, ttl = None\<rparr>)]],
       cfgConflictResolution = Some ERROR, enableCache = None, cacheTTL = None,
       enableValidation = None, enableEncryption = None, enableAudit = None,
       encryptionKey = None\<rparr>)) 5 ''theme'') = Inr True \<and>
   emitted (snd (inj_delete (constructor (Some \<lparr>cfgProviders = Some [memoryProvider 25 0 [(''theme'', \<lparr>key = ''theme'', pvalue = PString ''light'', priority = 25, source = ''memory'',
          timestamp = 0, encrypted = None, validated = None, ttl = None\<rparr>)],
         memoryProvider 75 0 [(''theme'', \<lparr>key = ''theme'', pvalue = PString ''dark'', priority = 75, source = ''memory'',
          timestamp = 0, encrypted = None, validated = None, ttl = None\<rparr>)]],
       cfgConflictResolution = Some ERROR, enableCache = None, cacheTTL = None,
       enableValidation = None, enableEncryption = None, enableAudit = None,
       encryptionKey = None\<rparr>)) 5 ''theme'')) =
     [\<lparr>eventType = REMOVED, eventKey = ''theme'', newValue = None, oldValue = None,
       eventProvider = ''injector'', eventTimestamp = 5\<rparr>]"
  using old_value_read_swallows[of "constructor (Some \<lparr>cfgProviders = Some [memoryProvider 25 0 [(''theme'', \<lparr>key = ''theme'', pvalue = PString ''light'', priority = 25, source = ''memory'',
          timestamp = 0, encrypted = None, validated = None, ttl = None\<rparr>)],
         memoryProvider 75 0 [(''theme'', \<lparr>key = ''theme'', pvalue = PString ''dark'', priority = 75, source = ''memory'',
          timestamp = 0, encrypted = None, validated = None, ttl = None\<rparr>)]],
       cfgConflictResolution = Some ERROR, enableCache = None, cacheTTL = None,
       enableValidation = None, enableEncryption = None, enableAudit = None,
       encryptionKey = None\<rparr>)" 5 "''theme''" "ConflictError ''theme'' [''memory'', ''memory'']"
      "PString ''blue''" None]
  by (simp add: inj_eval)

end
